theory Spec2Isabelle
  imports Main
begin

section \<open>JavaScript strings and the two regular expressions\<close>

text \<open>
  A JavaScript string is a sequence of UTF-16 code units. Literals of the examples are
  written as HOL strings and converted with \<open>str\<close>.
\<close>

type_synonym code_unit = nat
type_synonym js_string = "code_unit list"

definition str :: "string \<Rightarrow> js_string" where
  "str s = map of_char s"

text \<open>
  The characters removed by \<open>String.prototype.trim\<close> and matched by \<open>\s\<close>: the WhiteSpace
  and LineTerminator productions of ECMAScript (TAB, LF, VT, FF, CR, SP, NBSP, U+1680,
  U+2000 to U+200A, LS, PS, U+202F, U+205F, U+3000, BOM). Engines built on Unicode before
  6.3 also count U+180E; both operations use the same set.
\<close>

definition isWhiteSpace :: "code_unit \<Rightarrow> bool" where
  "isWhiteSpace c =
     (c = 9 \<or> c = 10 \<or> c = 11 \<or> c = 12 \<or> c = 13 \<or> c = 32 \<or> c = 160 \<or> c = 5760
      \<or> (8192 \<le> c \<and> c \<le> 8202) \<or> c = 8232 \<or> c = 8233 \<or> c = 8239 \<or> c = 8287
      \<or> c = 12288 \<or> c = 65279)"

definition trim :: "js_string \<Rightarrow> js_string" where
  "trim s = rev (dropWhile isWhiteSpace (rev (dropWhile isWhiteSpace s)))"

text \<open>
  \<open>setextHeaderRx = /^ *(?:\={1,}|-{1,})\s*$/\<close>: any number of U+0020, then a run of
  \<open>=\<close> (61) or a run of \<open>-\<close> (45), then white space up to the end of the string.
\<close>

definition setextHeaderRx :: "js_string \<Rightarrow> bool" where
  "setextHeaderRx s =
     (let r = dropWhile (\<lambda>c. c = 32) s in
      case r of
        [] \<Rightarrow> False
      | c # _ \<Rightarrow>
          if c = 61 then list_all isWhiteSpace (dropWhile (\<lambda>c. c = 61) r)
          else if c = 45 then list_all isWhiteSpace (dropWhile (\<lambda>c. c = 45) r)
          else False)"

text \<open>
  \<open>/H1|H2|H3|H4|H5|H6/\<close> is not anchored: it matches when \<open>H\<close> (72) followed by one of
  \<open>1\<close> to \<open>6\<close> (49 to 54) occurs anywhere in the string.
\<close>

fun headingTagRx :: "js_string \<Rightarrow> bool" where
  "headingTagRx [] = False"
| "headingTagRx (c # cs) =
     ((c = 72 \<and> (case cs of [] \<Rightarrow> False | d # _ \<Rightarrow> 49 \<le> d \<and> d \<le> 54)) \<or> headingTagRx cs)"

section \<open>The collaborators: the editor document and the preview\<close>

text \<open>
  Of CodeMirror the module uses \<open>getDoc().lineCount()\<close>, \<open>getLine(i)\<close> (the text of line
  \<open>i\<close>, \<open>undefined\<close> outside the document) and \<open>getStateAfter(i)\<close>, the markdown mode's
  state, of which it reads the four fields of \<open>state.base\<close> for their truth value.
\<close>

record base_state =
  header :: bool
  quote :: bool
  list :: bool
  taskList :: bool

record cm_state =
  base :: base_state

record CodeMirror =
  lines :: "js_string list"
  stateAfter :: "nat \<Rightarrow> cm_state"

definition lineCount :: "CodeMirror \<Rightarrow> nat" where
  "lineCount c = length (lines c)"

definition getLine :: "CodeMirror \<Rightarrow> nat \<Rightarrow> js_string option" where
  "getLine c i = (if i < length (lines c) then Some (lines c ! i) else None)"

definition getStateAfter :: "CodeMirror \<Rightarrow> nat \<Rightarrow> cm_state" where
  "getStateAfter c i = stateAfter c i"

text \<open>A value of type \<open>string | undefined\<close> in a condition: true when it is a non-empty string.\<close>

definition truthy :: "js_string option \<Rightarrow> bool" where
  "truthy v = (case v of None \<Rightarrow> False | Some s \<Rightarrow> s \<noteq> [])"

text \<open>The child nodes of the preview's \<open>.previewContent\<close> element.\<close>

record node =
  nodeType :: nat
  tagName :: js_string

definition ELEMENT_NODE :: nat where
  "ELEMENT_NODE = 1"

section \<open>SectionManager\<close>

text \<open>
  Section objects are shared between \<open>_sectionList\<close> and \<open>_currentSection\<close> and are
  mutated in place, so they live in a store (\<open>heap\<close>, with \<open>nextRef\<close> the next free
  address) and both fields hold references. The type \<open>'el\<close> is the jQuery object kept in
  \<open>$previewSectionEl\<close>. The field \<open>end\<close> is called \<open>end_line\<close> here. The fields \<open>cm\<close> and
  \<open>previewContent\<close> are what the editor and the preview hold when a method is called; an
  edit between two calls is an update of \<open>cm\<close>.
\<close>

record 'el sectionData =
  start :: nat
  end_line :: nat
  previewSectionEl :: "'el option"

type_synonym ref = nat

record 'el SectionManager =
  cm :: CodeMirror
  previewContent :: "node list"
  heap :: "ref \<Rightarrow> 'el sectionData"
  nextRef :: ref
  sectionList :: "ref list option"
  currentSection :: "ref option"

datatype error = TypeError

text \<open>A call either returns (\<open>Inr\<close>) or throws (\<open>Inl\<close>); both leave a state behind.\<close>

type_synonym 'el outcome = "(error \<times> 'el SectionManager) + 'el SectionManager"

definition makeSectionData :: "nat \<Rightarrow> nat \<Rightarrow> 'el sectionData" where
  "makeSectionData s e = \<lparr>start = s, end_line = e, previewSectionEl = None\<rparr>"

definition new_SectionManager :: "CodeMirror \<Rightarrow> node list \<Rightarrow> 'el SectionManager" where
  "new_SectionManager c p =
     \<lparr>cm = c, previewContent = p, heap = (\<lambda>_. makeSectionData 0 0), nextRef = 0,
      sectionList = None, currentSection = None\<rparr>"

definition addNewSection :: "nat \<Rightarrow> nat \<Rightarrow> 'el SectionManager \<Rightarrow> 'el outcome" where
  "addNewSection s e m =
     (let newSection = nextRef m;
          m1 = m\<lparr>heap := (heap m)(newSection := makeSectionData s e),
                 nextRef := Suc (nextRef m)\<rparr>
      in case sectionList m1 of
           None \<Rightarrow> Inl (TypeError, m1)
         | Some sl \<Rightarrow>
             Inr (m1\<lparr>sectionList := Some (sl @ [newSection]),
                     currentSection := Some newSection\<rparr>))"

definition getSectionList :: "'el SectionManager \<Rightarrow> ref list option" where
  "getSectionList m = sectionList m"

definition updateCurrentSectionEnd :: "nat \<Rightarrow> 'el SectionManager \<Rightarrow> 'el outcome" where
  "updateCurrentSectionEnd e m =
     (case currentSection m of
        None \<Rightarrow> Inl (TypeError, m)
      | Some r \<Rightarrow> Inr (m\<lparr>heap := (heap m)(r := (heap m r)\<lparr>end_line := e\<rparr>)\<rparr>))"

text \<open>The test of lines 98 to 109 that sets \<open>isSection\<close> for line \<open>i\<close>.\<close>

definition isSectionLine :: "CodeMirror \<Rightarrow> nat \<Rightarrow> bool" where
  "isSectionLine c i =
     (let state = getStateAfter c i in
      if truthy (getLine c i) \<and> header (base state) \<and> \<not> quote (base state)
         \<and> \<not> list (base state) \<and> \<not> taskList (base state)
      then True
      else if truthy (getLine c (i + 1))
              \<and> (case getLine c (i + 1) of None \<Rightarrow> False | Some s \<Rightarrow> setextHeaderRx s)
      then True
      else False)"

function eachLineState_loop ::
  "(bool \<Rightarrow> nat \<Rightarrow> 'el SectionManager \<Rightarrow> 'el outcome) \<Rightarrow> nat \<Rightarrow> nat \<Rightarrow> bool \<Rightarrow> js_string
     \<Rightarrow> 'el SectionManager \<Rightarrow> 'el outcome" where
  "eachLineState_loop iteratee lineLength i isTrimming trimCapture m =
     (if i < lineLength then
        let isSection = isSectionLine (cm m) i in
        if isTrimming then
          (case getLine (cm m) i of
             None \<Rightarrow> Inl (TypeError, m)
           | Some s \<Rightarrow>
               let trimCapture' = trimCapture @ trim s in
               if trimCapture' \<noteq> [] then
                 (case iteratee isSection i m of
                    Inl e \<Rightarrow> Inl e
                  | Inr m' \<Rightarrow> eachLineState_loop iteratee lineLength (i + 1) False trimCapture' m')
               else eachLineState_loop iteratee lineLength (i + 1) True trimCapture' m)
        else
          (case iteratee isSection i m of
             Inl e \<Rightarrow> Inl e
           | Inr m' \<Rightarrow> eachLineState_loop iteratee lineLength (i + 1) False trimCapture m')
      else Inr m)"
  by pat_completeness auto
termination
  by (relation "measure (\<lambda>(iteratee, lineLength, i, isTrimming, trimCapture, m). lineLength - i)")
     auto

definition eachLineState ::
  "(bool \<Rightarrow> nat \<Rightarrow> 'el SectionManager \<Rightarrow> 'el outcome) \<Rightarrow> 'el SectionManager \<Rightarrow> 'el outcome" where
  "eachLineState iteratee m = eachLineState_loop iteratee (lineCount (cm m)) 0 True [] m"

definition makeSectionList_iteratee :: "bool \<Rightarrow> nat \<Rightarrow> 'el SectionManager \<Rightarrow> 'el outcome" where
  "makeSectionList_iteratee isSection lineNumber m =
     (if lineNumber = 0 \<or> isSection then addNewSection lineNumber lineNumber m
      else updateCurrentSectionEnd lineNumber m)"

definition makeSectionList :: "'el SectionManager \<Rightarrow> 'el outcome" where
  "makeSectionList m = eachLineState makeSectionList_iteratee (m\<lparr>sectionList := Some []\<rparr>)"

text \<open>
  \<open>_getPreviewSections\<close>: \<open>sections\<close> and \<open>lastSection\<close> are the loop's state; the elements
  are the child nodes whose \<open>nodeType\<close> is \<open>ELEMENT_NODE\<close>.
\<close>

definition getPreviewSections_each :: "nat \<times> node list list \<Rightarrow> node \<Rightarrow> nat \<times> node list list" where
  "getPreviewSections_each st el =
     (let (lastSection, sections) = st;
          (lastSection, sections) =
            (if headingTagRx (tagName el) \<and> length (sections ! lastSection) \<noteq> 0
             then (lastSection + 1, sections @ [[]])
             else (lastSection, sections))
      in (lastSection, sections[lastSection := sections ! lastSection @ [el]]))"

definition getPreviewSections :: "'el SectionManager \<Rightarrow> node list list" where
  "getPreviewSections m =
     snd (foldl getPreviewSections_each (0, [[]])
            (filter (\<lambda>n. nodeType n = ELEMENT_NODE) (previewContent m)))"

text \<open>
  \<open>_matchPreviewSectionsWithSectionlist\<close>. jQuery is not part of the module: the value of
  \<open>$(childs).wrapAll($('<div class="content-id-' + index + '"></div>')).parent()\<close> is the
  parameter \<open>wrap index childs\<close>. What \<open>wrapAll\<close> does to the preview's own tree is not
  followed: \<open>previewContent\<close> is read, never written.
\<close>

fun matchPreviewSections_forEach ::
  "(nat \<Rightarrow> node list \<Rightarrow> 'el) \<Rightarrow> node list list \<Rightarrow> nat \<Rightarrow> 'el SectionManager \<Rightarrow> 'el outcome" where
  "matchPreviewSections_forEach wrap [] index m = Inr m"
| "matchPreviewSections_forEach wrap (childs # rest) index m =
     (case sectionList m of
        None \<Rightarrow> Inl (TypeError, m)
      | Some sl \<Rightarrow>
          if index < length sl then
            matchPreviewSections_forEach wrap rest (index + 1)
              (m\<lparr>heap := (heap m)(sl ! index :=
                    (heap m (sl ! index))\<lparr>previewSectionEl := Some (wrap index childs)\<rparr>)\<rparr>)
          else matchPreviewSections_forEach wrap rest (index + 1) m)"

definition matchPreviewSectionsWithSectionlist ::
  "(nat \<Rightarrow> node list \<Rightarrow> 'el) \<Rightarrow> node list list \<Rightarrow> 'el SectionManager \<Rightarrow> 'el outcome" where
  "matchPreviewSectionsWithSectionlist wrap sections m =
     matchPreviewSections_forEach wrap sections 0 m"

definition sectionMatch :: "(nat \<Rightarrow> node list \<Rightarrow> 'el) \<Rightarrow> 'el SectionManager \<Rightarrow> 'el outcome" where
  "sectionMatch wrap m =
     (case sectionList m of
        Some sl \<Rightarrow> matchPreviewSectionsWithSectionlist wrap (getPreviewSections m) m
      | None \<Rightarrow> Inr m)"

text \<open>
  \<open>sectionByLine\<close>: the loop leaves \<open>sectionIndex\<close> at the first section whose end is not
  before \<open>line\<close>, or at \<open>sectionLength\<close>. The result is a reference, or \<open>undefined\<close>
  (\<open>None\<close>) when the index \<open>sectionLength - 1\<close> is \<open>-1\<close>. Line numbers are natural
  numbers, as the editor gives them.
\<close>

function sectionByLine_loop :: "'el SectionManager \<Rightarrow> ref list \<Rightarrow> nat \<Rightarrow> nat \<Rightarrow> nat \<Rightarrow> nat" where
  "sectionByLine_loop m sectionList' sectionLength line sectionIndex =
     (if sectionIndex < sectionLength then
        if line \<le> end_line (heap m (sectionList' ! sectionIndex)) then sectionIndex
        else sectionByLine_loop m sectionList' sectionLength line (sectionIndex + 1)
      else sectionIndex)"
  by pat_completeness auto
termination
  by (relation "measure (\<lambda>(m, sectionList', sectionLength, line, sectionIndex).
                  sectionLength - sectionIndex)") auto

definition sectionByLine :: "'el SectionManager \<Rightarrow> nat \<Rightarrow> error + ref option" where
  "sectionByLine m line =
     (case sectionList m of
        None \<Rightarrow> Inl TypeError
      | Some sl \<Rightarrow>
          let sectionLength = length sl;
              sectionIndex = int (sectionByLine_loop m sl sectionLength line 0);
              sectionIndex = (if sectionIndex = int sectionLength then int sectionLength - 1
                              else sectionIndex)
          in Inr (if 0 \<le> sectionIndex \<and> sectionIndex < int sectionLength
                  then Some (sl ! nat sectionIndex) else None))"

section \<open>Notions used to state the properties\<close>

text \<open>
  A line is blank when trimming leaves nothing; \<open>firstNonBlank\<close> is the index of the first
  line that is not (the line count when there is none). \<open>opens\<close> is the condition under
  which the callback of \<open>makeSectionList\<close> adds a section. \<open>ranges\<close> reads the section list
  as pairs \<open>(start, end)\<close>.
\<close>

definition blank :: "js_string \<Rightarrow> bool" where
  "blank s = (trim s = [])"

definition firstNonBlank :: "CodeMirror \<Rightarrow> nat" where
  "firstNonBlank c = length (takeWhile blank (lines c))"

definition opens :: "CodeMirror \<Rightarrow> nat \<Rightarrow> bool" where
  "opens c i = (i = 0 \<or> isSectionLine c i)"

definition ranges :: "'el SectionManager \<Rightarrow> (nat \<times> nat) list" where
  "ranges m =
     (case sectionList m of
        None \<Rightarrow> []
      | Some sl \<Rightarrow> map (\<lambda>r. (start (heap m r), end_line (heap m r))) sl)"

text \<open>One call of the callback of \<open>makeSectionList\<close> for line \<open>j\<close>, on the ranges alone.\<close>

definition range_step :: "CodeMirror \<Rightarrow> (nat \<times> nat) list \<Rightarrow> nat \<Rightarrow> (nat \<times> nat) list" where
  "range_step c secs j =
     (if opens c j then secs @ [(j, j)]
      else if secs = [] then []
      else butlast secs @ [(fst (last secs), j)])"

text \<open>The section list holds distinct allocated references and the current section is its last.\<close>

definition linked :: "'el SectionManager \<Rightarrow> bool" where
  "linked m =
     (case sectionList m of
        None \<Rightarrow> False
      | Some sl \<Rightarrow> distinct sl \<and> (\<forall>r\<in>set sl. r < nextRef m)
                 \<and> (sl \<noteq> [] \<longrightarrow> currentSection m = Some (last sl)))"

text \<open>
  Ranges that follow one another: each has \<open>start \<le> end\<close> and the next one starts on the
  line after its end.
\<close>

fun contiguous :: "(nat \<times> nat) list \<Rightarrow> bool" where
  "contiguous [] = True"
| "contiguous [(s, e)] = (s \<le> e)"
| "contiguous ((s, e) # (s', e') # rest) = (s \<le> e \<and> e + 1 = s' \<and> contiguous ((s', e') # rest))"

text \<open>The ranges of the list after a call that returned; \<open>None\<close> for a call that threw.\<close>

definition built :: "'el outcome \<Rightarrow> (nat \<times> nat) list option" where
  "built r = (case r of Inl _ \<Rightarrow> None | Inr m \<Rightarrow> Some (ranges m))"

text \<open>
  One iteration of the loop of \<open>_getPreviewSections\<close> on \<open>sections\<close> alone, \<open>lastSection\<close>
  being the last index.
\<close>

definition group_step :: "node list list \<Rightarrow> node \<Rightarrow> node list list" where
  "group_step groups el =
     (if headingTagRx (tagName el) \<and> last groups \<noteq> [] then groups @ [[el]]
      else butlast groups @ [last groups @ [el]])"

section \<open>The jQuery call of sectionMatch\<close>

text \<open>
  jQuery is a library the module calls, not part of it. What the expression
  \<open>$(childs).wrapAll($('<div class="content-id-' + index + '"></div>')).parent()\<close> does, by
  jQuery's documentation and source: \<open>wrapAll\<close> is guarded by \<open>if (this[0])\<close>, so on an empty
  set it does nothing; otherwise it inserts one new \<open>div\<close> before the first element of the
  set and moves every element of the set into it. \<open>.parent()\<close> is the set of the distinct
  parents of the elements: that \<open>div\<close> alone, or no element at all for an empty set. A
  jQuery object is the list of the elements it holds; the elements here are wrapper
  \<open>div\<close>s, given by their class and their children.
\<close>

record wrapper_div =
  className :: js_string
  childNodes :: "node list"

type_synonym jQuery = "wrapper_div list"

text \<open>\<open>'content-id-' + index\<close>: the index in decimal digits.\<close>

fun numberToString :: "nat \<Rightarrow> js_string" where
  "numberToString n =
     (if n < 10 then [48 + n] else numberToString (n div 10) @ [48 + n mod 10])"

definition wrapAll_parent :: "nat \<Rightarrow> node list \<Rightarrow> jQuery" where
  "wrapAll_parent index childs =
     (if childs = [] then []
      else [\<lparr>className = str ''content-id-'' @ numberToString index, childNodes = childs\<rparr>])"

text \<open>What a call left in \<open>$previewSectionEl\<close> of the section at \<open>r\<close>; \<open>None\<close> when it threw.\<close>

definition assigned :: "'el outcome \<Rightarrow> ref \<Rightarrow> 'el option" where
  "assigned out r = (case out of Inl _ \<Rightarrow> None | Inr m \<Rightarrow> previewSectionEl (heap m r))"

section \<open>Example documents\<close>

definition plain :: cm_state where
  "plain = \<lparr>base = \<lparr>header = False, quote = False, list = False, taskList = False\<rparr>\<rparr>"

definition atx :: cm_state where
  "atx = \<lparr>base = \<lparr>header = True, quote = False, list = False, taskList = False\<rparr>\<rparr>"

definition quoted_atx :: cm_state where
  "quoted_atx = \<lparr>base = \<lparr>header = True, quote = True, list = False, taskList = False\<rparr>\<rparr>"

definition document :: "string list \<Rightarrow> (nat \<Rightarrow> cm_state) \<Rightarrow> CodeMirror" where
  "document ls st = \<lparr>lines = map str ls, stateAfter = st\<rparr>"

type_synonym wrapper = "nat \<times> node list"

text \<open>The wrapper assigned to a section in the examples: the index and the wrapped elements.\<close>

definition wrapped :: "nat \<Rightarrow> node list \<Rightarrow> wrapper" where
  "wrapped index childs = (index, childs)"

definition element :: "string \<Rightarrow> node" where
  "element t = \<lparr>nodeType = ELEMENT_NODE, tagName = str t\<rparr>"

text \<open>The six-line document of the end-to-end example, lines 1 and 4 being headings.\<close>

definition title_sub_doc :: CodeMirror where
  "title_sub_doc =
     document ['''', ''# Title'', ''body1'', ''body2'', ''## Sub'', ''body3'']
       (\<lambda>i. if i = 1 \<or> i = 4 then atx else plain)"

text \<open>The SectionManager that a first \<open>makeSectionList\<close> leaves for that document.\<close>

definition title_sub_built :: "wrapper SectionManager" where
  "title_sub_built =
     \<lparr>cm = title_sub_doc, previewContent = [],
      heap = (\<lambda>_. makeSectionData 0 0)
               (0 := \<lparr>start = 1, end_line = 3, previewSectionEl = None\<rparr>,
                1 := \<lparr>start = 4, end_line = 5, previewSectionEl = None\<rparr>),
      nextRef = 2, sectionList = Some [0, 1], currentSection = Some 1\<rparr>"

text \<open>
  The SectionManager that \<open>makeSectionList\<close> leaves for the six-line document when the
  preview holds the nodes \<open>p\<close>.
\<close>

definition title_sub_with_preview :: "node list \<Rightarrow> jQuery SectionManager" where
  "title_sub_with_preview p =
     \<lparr>cm = title_sub_doc, previewContent = p,
      heap = (\<lambda>_. makeSectionData 0 0)
               (0 := \<lparr>start = 1, end_line = 3, previewSectionEl = None\<rparr>,
                1 := \<lparr>start = 4, end_line = 5, previewSectionEl = None\<rparr>),
      nextRef = 2, sectionList = Some [0, 1], currentSection = Some 1\<rparr>"

text \<open>A one-line document, and the same document after two lines were typed above it.\<close>

definition heading_doc :: CodeMirror where
  "heading_doc = document [''# H''] (\<lambda>i. atx)"

definition heading_built :: "wrapper SectionManager" where
  "heading_built =
     \<lparr>cm = heading_doc, previewContent = [],
      heap = (\<lambda>_. makeSectionData 0 0)
               (0 := \<lparr>start = 0, end_line = 0, previewSectionEl = None\<rparr>),
      nextRef = 1, sectionList = Some [0], currentSection = Some 0\<rparr>"

definition heading_doc_edited :: CodeMirror where
  "heading_doc_edited = document ['''', ''body'', ''# H''] (\<lambda>i. if i = 2 then atx else plain)"

text \<open>
  Two documents whose last line underlines the line \<open>Title\<close>: with a TAB before the
  \<open>=\<close> signs, and with spaces around them.
\<close>

definition tab_underline_doc :: CodeMirror where
  "tab_underline_doc =
     \<lparr>lines = [str ''a'', str ''Title'', 9 # str ''===''], stateAfter = (\<lambda>i. plain)\<rparr>"

definition space_underline_doc :: CodeMirror where
  "space_underline_doc = document [''a'', ''Title'', ''  === ''] (\<lambda>i. plain)"

text \<open>
  A heading inside a blockquote, followed by a line of dashes or by text; and a heading
  outside any blockquote or list.
\<close>

definition quoted_heading_doc :: CodeMirror where
  "quoted_heading_doc =
     document [''intro'', ''> # Title'', ''---''] (\<lambda>i. if i = 1 then quoted_atx else plain)"

definition quoted_heading_text_doc :: CodeMirror where
  "quoted_heading_text_doc =
     document [''intro'', ''> # Title'', ''text''] (\<lambda>i. if i = 1 then quoted_atx else plain)"

definition open_heading_doc :: CodeMirror where
  "open_heading_doc =
     document [''intro'', ''# Title'', ''text''] (\<lambda>i. if i = 1 then atx else plain)"

section \<open>The properties as the specification words them\<close>

text \<open>
  A setext underline as the specification describes it: one or more \<open>=\<close> or one or more
  \<open>-\<close>, with optional white space around, and nothing else.
\<close>

definition spec_setext_underline :: "js_string \<Rightarrow> bool" where
  "spec_setext_underline s =
     (trim s \<noteq> [] \<and> (list_all (\<lambda>c. c = 61) (trim s) \<or> list_all (\<lambda>c. c = 45) (trim s)))"

text \<open>
  The grouping of preview elements as the specification describes it: an element whose
  tag name is one of H1 to H6 opens a new group when the current group is not empty; every
  other element is appended to the current group.
\<close>

definition isHeadingTag :: "js_string \<Rightarrow> bool" where
  "isHeadingTag t = (t \<in> set (map str [''H1'', ''H2'', ''H3'', ''H4'', ''H5'', ''H6'']))"

definition spec_group_step :: "node list list \<Rightarrow> node \<Rightarrow> node list list" where
  "spec_group_step groups el =
     (if isHeadingTag (tagName el) \<and> last groups \<noteq> [] then groups @ [[el]]
      else butlast groups @ [last groups @ [el]])"

definition spec_groups :: "node list \<Rightarrow> node list list" where
  "spec_groups els = foldl spec_group_step [[]] els"

section \<open>The line loop\<close>

declare eachLineState_loop.simps [simp del]
declare sectionByLine_loop.simps [simp del]

lemma blank_iff: "blank s \<longleftrightarrow> list_all isWhiteSpace s"
proof -
  have "dropWhile isWhiteSpace (rev (dropWhile isWhiteSpace s)) = []
          \<longleftrightarrow> dropWhile isWhiteSpace s = []"
  proof (cases "dropWhile isWhiteSpace s")
    case Nil
    then show ?thesis by (simp del: dropWhile_eq_Nil_conv)
  next
    case (Cons y ys)
    then have "\<not> isWhiteSpace y"
      by (metis hd_dropWhile list.sel(1) list.distinct(1))
    then show ?thesis using Cons by (simp add: dropWhile_append3)
  qed
  then show ?thesis
    by (simp add: blank_def trim_def list_all_iff)
qed

lemma iteratee_opens:
  assumes "linked m" "j = 0 \<or> b"
  shows "\<exists>m'. makeSectionList_iteratee b j m = Inr m' \<and> linked m' \<and> cm m' = cm m
           \<and> currentSection m' \<noteq> None \<and> ranges m' = ranges m @ [(j, j)]"
  using assms
  by (auto simp: makeSectionList_iteratee_def addNewSection_def linked_def ranges_def
        makeSectionData_def Let_def split: option.splits)

lemma iteratee_extends:
  assumes "linked m" "\<not> (j = 0 \<or> b)" "currentSection m = Some r"
  shows "\<exists>m'. makeSectionList_iteratee b j m = Inr m' \<and> linked m' \<and> cm m' = cm m
           \<and> currentSection m' \<noteq> None
           \<and> ranges m' = (if ranges m = [] then [] else butlast (ranges m) @ [(fst (last (ranges m)), j)])"
proof -
  obtain sl where sl: "sectionList m = Some sl" "distinct sl" "\<forall>r\<in>set sl. r < nextRef m"
      "sl \<noteq> [] \<longrightarrow> r = last sl"
    using assms by (auto simp: linked_def split: option.splits)
  let ?m' = "m\<lparr>heap := (heap m)(r := (heap m r)\<lparr>end_line := j\<rparr>)\<rparr>"
  have run: "makeSectionList_iteratee b j m = Inr ?m'"
    using assms by (simp add: makeSectionList_iteratee_def updateCurrentSectionEnd_def)
  have lk: "linked ?m'" using assms sl by (simp add: linked_def)
  have rg: "ranges ?m' = (if ranges m = [] then [] else butlast (ranges m) @ [(fst (last (ranges m)), j)])"
  proof (cases "sl = []")
    case True
    then show ?thesis using sl by (simp add: ranges_def)
  next
    case False
    then obtain ys where ys: "sl = ys @ [r]"
      using sl(4) by (metis append_butlast_last_id)
    then have "r \<notin> set ys" using sl(2) by simp
    then show ?thesis using sl(1) ys by (auto simp: ranges_def)
  qed
  show ?thesis using run lk rg assms(3) by simp
qed

lemma iteratee_throws:
  assumes "\<not> (j = 0 \<or> b)" "currentSection m = None"
  shows "makeSectionList_iteratee b j m = Inl (TypeError, m)"
  using assms by (simp add: makeSectionList_iteratee_def updateCurrentSectionEnd_def)

lemma iteratee_step:
  assumes "linked m" "currentSection m \<noteq> None \<or> opens (cm m) j"
  shows "\<exists>m'. makeSectionList_iteratee (isSectionLine (cm m) j) j m = Inr m' \<and> linked m'
           \<and> cm m' = cm m \<and> currentSection m' \<noteq> None
           \<and> ranges m' = range_step (cm m) (ranges m) j"
proof (cases "opens (cm m) j")
  case True
  then show ?thesis
    using iteratee_opens [OF assms(1), of j "isSectionLine (cm m) j"]
    by (simp add: opens_def range_step_def)
next
  case False
  then obtain r where "currentSection m = Some r" using assms(2) by auto
  then show ?thesis
    using iteratee_extends [OF assms(1), of j "isSectionLine (cm m) j" r] False
    by (simp add: opens_def range_step_def)
qed


lemma loop_done:
  "lineLength \<le> i \<Longrightarrow> eachLineState_loop iteratee lineLength i isTrimming trimCapture m = Inr m"
  by (simp add: eachLineState_loop.simps)

lemma loop_emit:
  "i < lineLength \<Longrightarrow>
     eachLineState_loop iteratee lineLength i False trimCapture m =
       (case iteratee (isSectionLine (cm m) i) i m of
          Inl e \<Rightarrow> Inl e
        | Inr m' \<Rightarrow> eachLineState_loop iteratee lineLength (Suc i) False trimCapture m')"
  by (subst eachLineState_loop.simps) (simp cong: sum.case_cong)

lemma loop_capture_unused:
  "eachLineState_loop iteratee lineLength i False trimCapture m =
     eachLineState_loop iteratee lineLength i False [] m"
proof (induction "lineLength - i" arbitrary: i m)
  case 0
  then show ?case by (simp add: loop_done)
next
  case (Suc d)
  then have "i < lineLength" and "d = lineLength - Suc i" by simp_all
  then show ?case
    using Suc.hyps(1) by (simp add: loop_emit split: sum.splits)
qed

lemma loop_blank:
  assumes "i < lineLength" "i < length (lines (cm m))" "blank (lines (cm m) ! i)"
  shows "eachLineState_loop iteratee lineLength i True [] m =
           eachLineState_loop iteratee lineLength (Suc i) True [] m"
  using assms by (subst eachLineState_loop.simps) (simp add: getLine_def blank_def)

lemma loop_first:
  assumes "i < lineLength" "i < length (lines (cm m))" "\<not> blank (lines (cm m) ! i)"
  shows "eachLineState_loop iteratee lineLength i True [] m =
           eachLineState_loop iteratee lineLength i False [] m"
proof -
  have "eachLineState_loop iteratee lineLength i True [] m =
          (case iteratee (isSectionLine (cm m) i) i m of
             Inl e \<Rightarrow> Inl e
           | Inr m' \<Rightarrow> eachLineState_loop iteratee lineLength (Suc i) False
                         (trim (lines (cm m) ! i)) m')"
    using assms
    by (subst eachLineState_loop.simps) (simp add: getLine_def blank_def cong: sum.case_cong)
  also have "\<dots> = eachLineState_loop iteratee lineLength i False [] m"
    using assms(1)
    by (simp add: loop_emit loop_capture_unused [where trimCapture = "trim (lines (cm m) ! i)"]
          split: sum.splits)
  finally show ?thesis .
qed

lemma loop_skip:
  assumes "k \<le> length (lines (cm m))" "k \<le> lineLength"
    and "\<forall>j<k. blank (lines (cm m) ! j)"
  shows "i \<le> k \<Longrightarrow> eachLineState_loop iteratee lineLength i True [] m =
           eachLineState_loop iteratee lineLength k True [] m"
proof (induction "k - i" arbitrary: i)
  case 0
  then show ?case by simp
next
  case (Suc d)
  then have "i < k" and "d = k - Suc i" by simp_all
  then show ?case
    using Suc.hyps(1) [of "Suc i"] assms loop_blank [of i lineLength m iteratee] by simp
qed

lemma firstNonBlank_le: "firstNonBlank c \<le> lineCount c"
  by (simp add: firstNonBlank_def lineCount_def length_takeWhile_le)

lemma before_firstNonBlank: "j < firstNonBlank c \<Longrightarrow> blank (lines c ! j)"
  unfolding firstNonBlank_def by (metis takeWhile_nth set_takeWhileD nth_mem)

lemma at_firstNonBlank: "firstNonBlank c < lineCount c \<Longrightarrow> \<not> blank (lines c ! firstNonBlank c)"
  unfolding firstNonBlank_def lineCount_def by (rule nth_length_takeWhile)

lemma eachLineState_from_firstNonBlank:
  "eachLineState iteratee m =
     eachLineState_loop iteratee (lineCount (cm m)) (firstNonBlank (cm m)) False [] m"
proof -
  let ?n = "lineCount (cm m)" and ?k = "firstNonBlank (cm m)"
  have "eachLineState iteratee m = eachLineState_loop iteratee ?n ?k True [] m"
    unfolding eachLineState_def
    using loop_skip [of ?k m ?n 0 iteratee] firstNonBlank_le [of "cm m"] before_firstNonBlank
    by (simp add: lineCount_def)
  also have "\<dots> = eachLineState_loop iteratee ?n ?k False [] m"
  proof (cases "?k < ?n")
    case True
    then show ?thesis
      using loop_first [of ?k ?n m iteratee] at_firstNonBlank [of "cm m"]
      by (simp add: lineCount_def)
  next
    case False
    then show ?thesis by (simp add: loop_done)
  qed
  finally show ?thesis .
qed

lemma build_from:
  assumes "linked m" "currentSection m \<noteq> None \<or> lineLength \<le> i \<or> opens (cm m) i"
  shows "\<exists>m'. eachLineState_loop makeSectionList_iteratee lineLength i False [] m = Inr m'
           \<and> linked m' \<and> cm m' = cm m
           \<and> ranges m' = foldl (range_step (cm m)) (ranges m) [i..<lineLength]"
  using assms
proof (induction "lineLength - i" arbitrary: i m)
  case 0
  then show ?case by (simp add: loop_done)
next
  case (Suc d)
  then have i: "i < lineLength" and d: "d = lineLength - Suc i" by simp_all
  obtain m1 where m1: "makeSectionList_iteratee (isSectionLine (cm m) i) i m = Inr m1"
      "linked m1" "cm m1 = cm m" "currentSection m1 \<noteq> None"
      "ranges m1 = range_step (cm m) (ranges m) i"
    using iteratee_step [of m i] Suc.prems i by auto
  obtain m' where "eachLineState_loop makeSectionList_iteratee lineLength (Suc i) False [] m1 = Inr m'"
      "linked m'" "cm m' = cm m1"
      "ranges m' = foldl (range_step (cm m1)) (ranges m1) [Suc i..<lineLength]"
    using Suc.hyps(1) [OF d m1(2)] m1(4) by auto
  then show ?case
    using i m1 by (simp add: loop_emit upt_conv_Cons)
qed

lemma throw_at:
  assumes "i < lineLength" "currentSection m = None" "\<not> opens (cm m) i"
  shows "eachLineState_loop makeSectionList_iteratee lineLength i False [] m = Inl (TypeError, m)"
  using assms iteratee_throws [of i "isSectionLine (cm m) i" m]
  by (simp add: loop_emit opens_def)

section \<open>The ranges built by makeSectionList\<close>

lemma starts_foldl: "map fst (foldl (range_step c) secs js) = map fst secs @ filter (opens c) js"
proof (induction js arbitrary: secs)
  case Nil
  then show ?case by simp
next
  case (Cons j js)
  have "map fst (range_step c secs j) = map fst secs @ (if opens c j then [j] else [])"
    by (cases secs rule: rev_cases) (simp_all add: range_step_def)
  then show ?case using Cons by simp
qed

lemma contiguous_snoc:
  "contiguous (xs @ [(s, e)]) \<longleftrightarrow> contiguous xs \<and> s \<le> e \<and> (xs = [] \<or> snd (last xs) + 1 = s)"
  by (induction xs rule: contiguous.induct) auto

lemma range_step_chain:
  assumes "secs = [] \<or> (contiguous secs \<and> snd (last secs) + 1 = j)"
  shows "range_step c secs j = [] \<or> (contiguous (range_step c secs j) \<and> snd (last (range_step c secs j)) + 1 = Suc j)"
proof (cases "opens c j")
  case True
  then show ?thesis using assms by (auto simp: range_step_def contiguous_snoc)
next
  case False
  show ?thesis
  proof (cases secs rule: rev_cases)
    case Nil
    then show ?thesis by (simp add: range_step_def)
  next
    case (snoc ys y)
    then show ?thesis
      using assms False by (cases y) (auto simp: range_step_def contiguous_snoc)
  qed
qed

lemma foldl_chain:
  assumes "secs = [] \<or> (contiguous secs \<and> snd (last secs) + 1 = i)"
  shows "foldl (range_step c) secs [i..<n] = []
           \<or> (contiguous (foldl (range_step c) secs [i..<n])
               \<and> snd (last (foldl (range_step c) secs [i..<n])) + 1 = max i n)"
  using assms
proof (induction "n - i" arbitrary: i secs)
  case 0
  then show ?case by (auto simp: max_def)
next
  case (Suc d)
  then have i: "i < n" and d: "d = n - Suc i" by simp_all
  show ?case
    using Suc.hyps(1) [OF d range_step_chain [OF Suc.prems, of c]] i
    by (simp add: upt_conv_Cons max_def)
qed

lemma contiguous_nth:
  "contiguous xs \<Longrightarrow> k < length xs \<Longrightarrow> fst (xs ! k) \<le> snd (xs ! k)"
  "contiguous xs \<Longrightarrow> Suc k < length xs \<Longrightarrow> snd (xs ! k) + 1 = fst (xs ! Suc k)"
  by (induction xs arbitrary: k rule: contiguous.induct) (auto simp: nth_Cons split: nat.splits)

lemma contiguous_mono:
  assumes "contiguous xs" "k < length xs"
  shows "j < k \<Longrightarrow> snd (xs ! j) < fst (xs ! k)"
  using assms(2)
proof (induction k)
  case 0
  then show ?case by simp
next
  case (Suc k)
  have step: "snd (xs ! k) + 1 = fst (xs ! Suc k)"
    using contiguous_nth(2) [OF assms(1)] Suc.prems by simp
  show ?case
  proof (cases "j = k")
    case True
    then show ?thesis using step by simp
  next
    case False
    then have "snd (xs ! j) < fst (xs ! k)" using Suc by simp
    moreover have "fst (xs ! k) \<le> snd (xs ! k)"
      using contiguous_nth(1) [OF assms(1)] Suc.prems by simp
    ultimately show ?thesis using step by simp
  qed
qed

lemma makeSectionList_returns:
  assumes "currentSection m \<noteq> None \<or> lineCount (cm m) \<le> firstNonBlank (cm m)
             \<or> opens (cm m) (firstNonBlank (cm m))"
  shows "\<exists>m'. makeSectionList m = Inr m' \<and> linked m' \<and> cm m' = cm m
           \<and> ranges m' = foldl (range_step (cm m)) [] [firstNonBlank (cm m)..<lineCount (cm m)]"
proof -
  let ?m0 = "m\<lparr>sectionList := Some []\<rparr>"
  have "linked ?m0" by (simp add: linked_def)
  moreover have "ranges ?m0 = []" by (simp add: ranges_def)
  ultimately show ?thesis
    using build_from [of ?m0 "lineCount (cm m)" "firstNonBlank (cm m)"] assms
    by (auto simp: makeSectionList_def eachLineState_from_firstNonBlank)
qed

lemma linked_current: "linked m \<Longrightarrow> ranges m \<noteq> [] \<Longrightarrow> currentSection m \<noteq> None"
  by (auto simp: linked_def ranges_def split: option.splits)

lemma makeSectionList_throws:
  assumes "currentSection m = None" "firstNonBlank (cm m) < lineCount (cm m)"
    "\<not> opens (cm m) (firstNonBlank (cm m))"
  shows "makeSectionList m = Inl (TypeError, m\<lparr>sectionList := Some []\<rparr>)"
  using throw_at [of "firstNonBlank (cm m)" "lineCount (cm m)" "m\<lparr>sectionList := Some []\<rparr>"] assms
  by (simp add: makeSectionList_def eachLineState_from_firstNonBlank)

lemma makeSectionList_Inr:
  assumes "makeSectionList m0 = Inr m"
  shows "linked m \<and> cm m = cm m0
           \<and> ranges m = foldl (range_step (cm m0)) [] [firstNonBlank (cm m0)..<lineCount (cm m0)]"
proof (cases "currentSection m0 \<noteq> None \<or> lineCount (cm m0) \<le> firstNonBlank (cm m0)
                \<or> opens (cm m0) (firstNonBlank (cm m0))")
  case True
  then show ?thesis using makeSectionList_returns [OF True] assms by auto
next
  case False
  then show ?thesis using makeSectionList_throws [of m0] assms by simp
qed

lemma built_returns:
  assumes "currentSection m \<noteq> None \<or> lineCount (cm m) \<le> firstNonBlank (cm m)
             \<or> opens (cm m) (firstNonBlank (cm m))"
  shows "built (makeSectionList m)
           = Some (foldl (range_step (cm m)) [] [firstNonBlank (cm m)..<lineCount (cm m)])"
  using makeSectionList_returns [OF assms] by (auto simp: built_def)

lemma built_chain:
  assumes "makeSectionList m0 = Inr m" "ranges m \<noteq> []"
  shows "contiguous (ranges m)" and "snd (last (ranges m)) + 1 = lineCount (cm m)"
    and "map fst (ranges m) = filter (opens (cm m)) [firstNonBlank (cm m)..<lineCount (cm m)]"
proof -
  let ?c = "cm m0" and ?k = "firstNonBlank (cm m0)" and ?n = "lineCount (cm m0)"
  have r: "ranges m = foldl (range_step ?c) [] [?k..<?n]" and c: "cm m = ?c"
    using makeSectionList_Inr [OF assms(1)] by simp_all
  show st: "map fst (ranges m) = filter (opens (cm m)) [firstNonBlank (cm m)..<lineCount (cm m)]"
    using starts_foldl [of ?c "[]" "[?k..<?n]"] r c by simp
  have "?k < ?n" using st assms(2) c by (cases "?k < ?n") auto
  then show "contiguous (ranges m)" and "snd (last (ranges m)) + 1 = lineCount (cm m)"
    using foldl_chain [of "[]" ?k ?c ?n] r c assms(2) by (simp_all add: max_def)
qed

lemma built_starts:
  assumes "makeSectionList m0 = Inr m"
  shows "map fst (ranges m) = filter (opens (cm m0)) [firstNonBlank (cm m0)..<lineCount (cm m0)]"
  using makeSectionList_Inr [OF assms] starts_foldl [of "cm m0" "[]"] by simp

lemma built_covers:
  assumes "makeSectionList m0 = Inr m" "firstNonBlank (cm m0) < lineCount (cm m0)"
    "opens (cm m0) (firstNonBlank (cm m0))"
  shows "ranges m \<noteq> []" and "fst (hd (ranges m)) = firstNonBlank (cm m0)"
    and "contiguous (ranges m)" and "snd (last (ranges m)) + 1 = lineCount (cm m0)"
proof -
  have c: "cm m = cm m0" using makeSectionList_Inr [OF assms(1)] by simp
  have "[firstNonBlank (cm m0)..<lineCount (cm m0)]
          = firstNonBlank (cm m0) # [Suc (firstNonBlank (cm m0))..<lineCount (cm m0)]"
    using assms(2) by (simp add: upt_conv_Cons)
  then have st: "map fst (ranges m)
      = firstNonBlank (cm m0)
          # filter (opens (cm m0)) [Suc (firstNonBlank (cm m0))..<lineCount (cm m0)]"
    using built_starts [OF assms(1)] assms(3) by simp
  then show ne: "ranges m \<noteq> []" by auto
  show "fst (hd (ranges m)) = firstNonBlank (cm m0)"
    using st ne by (cases "ranges m") auto
  show "contiguous (ranges m)" and "snd (last (ranges m)) + 1 = lineCount (cm m0)"
    using built_chain(1,2) [OF assms(1) ne] c by simp_all
qed

section \<open>The lookup loop\<close>

lemma sectionByLine_loop_takeWhile:
  "i \<le> length sl \<Longrightarrow>
     sectionByLine_loop m sl (length sl) line i
       = i + length (takeWhile (\<lambda>r. \<not> line \<le> end_line (heap m r)) (drop i sl))"
proof (induction "length sl - i" arbitrary: i)
  case 0
  then show ?case by (simp add: sectionByLine_loop.simps)
next
  case (Suc d)
  then have i: "i < length sl" and d: "d = length sl - Suc i" by simp_all
  have "drop i sl = sl ! i # drop (Suc i) sl"
    using i by (simp add: Cons_nth_drop_Suc)
  then show ?case
    using Suc.hyps(1) [OF d] i by (subst sectionByLine_loop.simps) simp
qed

lemma find_takeWhile:
  "find P xs = (if length (takeWhile (\<lambda>x. \<not> P x) xs) < length xs
                then Some (xs ! length (takeWhile (\<lambda>x. \<not> P x) xs)) else None)"
  by (induction xs) auto

lemma sectionByLine_find:
  assumes "sectionList m = Some sl" "sl \<noteq> []"
  shows "sectionByLine m line
           = Inr (Some (case find (\<lambda>r. line \<le> end_line (heap m r)) sl of
                          Some r \<Rightarrow> r | None \<Rightarrow> last sl))"
proof -
  let ?k = "length (takeWhile (\<lambda>r. \<not> line \<le> end_line (heap m r)) sl)"
  have k: "sectionByLine_loop m sl (length sl) line 0 = ?k"
    using sectionByLine_loop_takeWhile [of 0 sl m line] by simp
  have le: "?k \<le> length sl" by (rule length_takeWhile_le)
  show ?thesis
  proof (cases "?k < length sl")
    case True
    then show ?thesis
      using assms k by (simp add: sectionByLine_def find_takeWhile [of _ sl])
  next
    case False
    then have "?k = length sl" using le by simp
    moreover have "nat (int (length sl) - 1) = length sl - 1" by simp
    ultimately show ?thesis
      using assms k
      by (simp add: sectionByLine_def find_takeWhile [of _ sl] last_conv_nth Let_def
            del: One_nat_def)
  qed
qed

section \<open>The boundary test\<close>

lemma dropWhile_run:
  assumes "w = [] \<or> hd w \<noteq> u"
  shows "dropWhile (\<lambda>c. c = u) (replicate n u @ w) = w"
proof (induction n)
  case 0
  then show ?case using assms by (cases w) auto
next
  case (Suc n)
  then show ?case by simp
qed

lemma setextHeaderRx_intro:
  assumes "u = 61 \<or> u = 45" "list_all isWhiteSpace w"
  shows "setextHeaderRx (replicate p 32 @ replicate (Suc q) u @ w)"
proof -
  have u: "\<not> isWhiteSpace u" "u \<noteq> 32"
    using assms(1) by (auto simp: isWhiteSpace_def)
  have w: "w = [] \<or> hd w \<noteq> u"
    using assms(2) u(1) by (cases w) auto
  have spaces: "dropWhile (\<lambda>c. c = 32) (replicate p 32 @ replicate (Suc q) u @ w)
                  = u # replicate q u @ w"
    using dropWhile_run [of "replicate (Suc q) u @ w" 32 p] u(2) by simp
  have run: "dropWhile (\<lambda>c. c = u) (u # replicate q u @ w) = w"
    using dropWhile_run [OF w, of "Suc q"] by simp
  show ?thesis
    unfolding setextHeaderRx_def Let_def spaces
    using assms run by auto
qed

lemma run_decompose:
  "\<exists>n. s = replicate n u @ dropWhile (\<lambda>c. c = u) s"
proof -
  have "\<forall>y\<in>set (takeWhile (\<lambda>c. c = u) s). y = u"
    by (auto dest: set_takeWhileD)
  then have "replicate (length (takeWhile (\<lambda>c. c = u) s)) u = takeWhile (\<lambda>c. c = u) s"
    by (rule replicate_length_same)
  then have "replicate (length (takeWhile (\<lambda>c. c = u) s)) u @ dropWhile (\<lambda>c. c = u) s = s"
    by simp
  then show ?thesis by metis
qed

lemma setextHeaderRx_elim:
  assumes "setextHeaderRx s"
  shows "\<exists>p q u w. s = replicate p 32 @ replicate (Suc q) u @ w \<and> (u = 61 \<or> u = 45)
           \<and> list_all isWhiteSpace w"
proof -
  define r where "r = dropWhile (\<lambda>c. c = 32) s"
  obtain p where p: "s = replicate p 32 @ r"
    unfolding r_def using run_decompose [of s 32] by auto
  obtain u r' where r: "r = u # r'" "u = 61 \<or> u = 45"
      "list_all isWhiteSpace (dropWhile (\<lambda>c. c = u) r)"
    using assms unfolding setextHeaderRx_def Let_def r_def [symmetric]
    by (auto split: list.splits if_splits)
  define w where "w = dropWhile (\<lambda>c. c = u) r"
  obtain n where n: "r = replicate n u @ w"
    unfolding w_def using run_decompose [of r u] by auto
  have "n \<noteq> 0"
  proof
    assume "n = 0"
    then have "w = u # r'" using n r(1) by simp
    then have "dropWhile (\<lambda>c. c = u) r \<noteq> []" and "hd (dropWhile (\<lambda>c. c = u) r) = u"
      unfolding w_def by simp_all
    then show False
      using hd_dropWhile [of "\<lambda>c. c = u" r] by simp
  qed
  then obtain q where q: "n = Suc q" by (cases n) auto
  have "s = replicate p 32 @ replicate (Suc q) u @ w"
    using p n q by simp
  then show ?thesis
    using r(2,3) unfolding w_def [symmetric] by blast
qed

lemma setextHeaderRx_iff:
  "setextHeaderRx s \<longleftrightarrow>
     (\<exists>p q u w. s = replicate p 32 @ replicate (Suc q) u @ w \<and> (u = 61 \<or> u = 45)
        \<and> list_all isWhiteSpace w)"
proof
  assume "setextHeaderRx s"
  then show "\<exists>p q u w. s = replicate p 32 @ replicate (Suc q) u @ w \<and> (u = 61 \<or> u = 45)
        \<and> list_all isWhiteSpace w"
    by (rule setextHeaderRx_elim)
next
  assume "\<exists>p q u w. s = replicate p 32 @ replicate (Suc q) u @ w \<and> (u = 61 \<or> u = 45)
        \<and> list_all isWhiteSpace w"
  then obtain p q u w where "s = replicate p 32 @ replicate (Suc q) u @ w"
      "u = 61 \<or> u = 45" "list_all isWhiteSpace w"
    by blast
  then show "setextHeaderRx s"
    using setextHeaderRx_intro [of u w p q] by simp
qed

lemma setextHeaderRx_nonempty: "setextHeaderRx s \<Longrightarrow> s \<noteq> []"
  by (auto simp: setextHeaderRx_def)

lemma isSectionLine_underlined:
  assumes "i + 1 < lineCount c" "setextHeaderRx (lines c ! (i + 1))"
  shows "isSectionLine c i"
  using assms setextHeaderRx_nonempty [OF assms(2)]
  by (simp add: isSectionLine_def getLine_def truthy_def lineCount_def)

lemma isSectionLine_in_context:
  assumes "quote (base (stateAfter c i)) \<or> list (base (stateAfter c i))
             \<or> taskList (base (stateAfter c i))"
  shows "isSectionLine c i \<longleftrightarrow> i + 1 < lineCount c \<and> setextHeaderRx (lines c ! (i + 1))"
  using assms setextHeaderRx_nonempty [of "lines c ! (i + 1)"]
  by (auto simp: isSectionLine_def getLine_def getStateAfter_def truthy_def lineCount_def)

lemma isSectionLine_heading:
  assumes "i < lineCount c" "lines c ! i \<noteq> []" "header (base (stateAfter c i))"
    "\<not> quote (base (stateAfter c i))" "\<not> list (base (stateAfter c i))"
    "\<not> taskList (base (stateAfter c i))"
  shows "isSectionLine c i"
  using assms
  by (simp add: isSectionLine_def getLine_def getStateAfter_def truthy_def lineCount_def)

lemma built_start_iff:
  assumes "makeSectionList m = Inr m'"
  shows "j \<in> set (map fst (ranges m'))
           \<longleftrightarrow> firstNonBlank (cm m) \<le> j \<and> j < lineCount (cm m) \<and> opens (cm m) j"
  using built_starts [OF assms] by auto

section \<open>Evaluating the examples\<close>

lemmas eval_line =
  opens_def isSectionLine_def document_def getLine_def getStateAfter_def truthy_def
  plain_def atx_def quoted_atx_def str_def setextHeaderRx_def isWhiteSpace_def

lemmas eval_first = firstNonBlank_def document_def blank_iff str_def isWhiteSpace_def

lemmas eval_call =
  makeSectionList_def eachLineState_def new_SectionManager_def lineCount_def
  makeSectionList_iteratee_def addNewSection_def updateCurrentSectionEnd_def
  makeSectionData_def trim_def

lemma loop_step:
  "eachLineState_loop iteratee lineLength i isTrimming trimCapture m =
     (if i < lineLength then
        if isTrimming then
          (case getLine (cm m) i of
             None \<Rightarrow> Inl (TypeError, m)
           | Some s \<Rightarrow>
               if trimCapture @ trim s \<noteq> [] then
                 (case iteratee (isSectionLine (cm m) i) i m of
                    Inl e \<Rightarrow> Inl e
                  | Inr m' \<Rightarrow>
                      eachLineState_loop iteratee lineLength (Suc i) False (trimCapture @ trim s) m')
               else eachLineState_loop iteratee lineLength (Suc i) True (trimCapture @ trim s) m)
        else
          (case iteratee (isSectionLine (cm m) i) i m of
             Inl e \<Rightarrow> Inl e
           | Inr m' \<Rightarrow> eachLineState_loop iteratee lineLength (Suc i) False trimCapture m')
      else Inr m)"
  by (subst eachLineState_loop.simps)
     (simp add: Let_def cong: sum.case_cong option.case_cong if_cong)

lemma title_sub_doc_first: "firstNonBlank title_sub_doc = 1"
  by (simp add: title_sub_doc_def eval_first)

lemma title_sub_doc_opens:
  "opens title_sub_doc 1" "\<not> opens title_sub_doc 2" "\<not> opens title_sub_doc 3"
  "opens title_sub_doc 4" "\<not> opens title_sub_doc 5"
  by (simp_all add: title_sub_doc_def eval_line)

lemma title_sub_doc_built:
  assumes "cm m = title_sub_doc"
  shows "built (makeSectionList m) = Some [(1, 3), (4, 5)]"
proof -
  have "lineCount title_sub_doc = 6"
    by (simp add: title_sub_doc_def lineCount_def document_def)
  moreover have "[1..<6] = [1, 2, 3, 4, 5::nat]"
    by (simp add: upt_rec)
  ultimately show ?thesis
    using built_returns [of m] assms title_sub_doc_first title_sub_doc_opens
    by (simp add: range_step_def)
qed

lemma title_sub_doc_run:
  "makeSectionList (new_SectionManager title_sub_doc []) = Inr title_sub_built"
  by (simp add: title_sub_doc_def title_sub_built_def eval_call loop_step eval_line)
     (simp add: eval_nat_numeral)

lemma heading_doc_run:
  "makeSectionList (new_SectionManager heading_doc []) = Inr heading_built"
  by (simp add: heading_doc_def heading_built_def eval_call loop_step eval_line)

lemma three_lines: "[0..<3] = [0, 1, 2::nat]"
  by (simp add: upt_rec)

lemma tab_underline_doc_built:
  "built (makeSectionList (new_SectionManager tab_underline_doc [] :: wrapper SectionManager))
     = Some [(0, 2)]"
proof -
  let ?m = "new_SectionManager tab_underline_doc [] :: wrapper SectionManager"
  have "cm ?m = tab_underline_doc" by (simp add: new_SectionManager_def)
  moreover have "firstNonBlank tab_underline_doc = 0" "lineCount tab_underline_doc = 3"
    by (simp_all add: tab_underline_doc_def eval_first lineCount_def)
  moreover have "opens tab_underline_doc 0" "\<not> opens tab_underline_doc 1"
      "\<not> opens tab_underline_doc 2"
    by (simp_all add: tab_underline_doc_def eval_line)
  ultimately show ?thesis
    using built_returns [of ?m] by (simp add: range_step_def three_lines)
qed

lemma intro_title_built:
  assumes "cm m = c" "firstNonBlank c = 0" "lineCount c = 3" "opens c 1" "\<not> opens c 2"
  shows "built (makeSectionList m) = Some [(0, 0), (1, 2)]"
  using built_returns [of m] assms by (simp add: range_step_def three_lines opens_def)

lemma space_underline_doc_facts:
  "firstNonBlank space_underline_doc = 0" "lineCount space_underline_doc = 3"
  "opens space_underline_doc 1" "\<not> opens space_underline_doc 2"
  by (simp_all add: space_underline_doc_def firstNonBlank_def blank_iff lineCount_def eval_line)

lemma quoted_heading_doc_facts:
  "firstNonBlank quoted_heading_doc = 0" "lineCount quoted_heading_doc = 3"
  "opens quoted_heading_doc 1" "\<not> opens quoted_heading_doc 2"
  by (simp_all add: quoted_heading_doc_def firstNonBlank_def blank_iff lineCount_def eval_line)

lemma open_heading_doc_facts:
  "firstNonBlank open_heading_doc = 0" "lineCount open_heading_doc = 3"
  "opens open_heading_doc 1" "\<not> opens open_heading_doc 2"
  by (simp_all add: open_heading_doc_def firstNonBlank_def blank_iff lineCount_def eval_line)

lemma quoted_heading_text_doc_facts:
  "firstNonBlank quoted_heading_text_doc = 0" "lineCount quoted_heading_text_doc = 3"
  "\<not> opens quoted_heading_text_doc 1" "\<not> opens quoted_heading_text_doc 2"
  by (simp_all add: quoted_heading_text_doc_def firstNonBlank_def blank_iff lineCount_def eval_line)

section \<open>Grouping the preview elements\<close>

lemma each_group_step:
  assumes "groups \<noteq> []"
  shows "getPreviewSections_each (length groups - 1, groups) el
           = (length (group_step groups el) - 1, group_step groups el)"
proof (cases "headingTagRx (tagName el) \<and> last groups \<noteq> []")
  case True
  then show ?thesis
    using assms
    by (simp add: getPreviewSections_each_def group_step_def last_conv_nth nth_append)
next
  case False
  have "groups[length groups - 1 := last groups @ [el]] = butlast groups @ [last groups @ [el]]"
    using assms by (induction groups rule: rev_induct) simp_all
  then show ?thesis
    using False assms
    by (auto simp: getPreviewSections_each_def group_step_def last_conv_nth)
qed

lemma group_step_nonempty: "group_step groups el \<noteq> []"
  by (simp add: group_step_def)

lemma foldl_group_step:
  "groups \<noteq> [] \<Longrightarrow>
     foldl getPreviewSections_each (length groups - 1, groups) els
       = (length (foldl group_step groups els) - 1, foldl group_step groups els)"
proof (induction els arbitrary: groups)
  case Nil
  then show ?case by simp
next
  case (Cons el els)
  then show ?case
    using each_group_step [OF Cons.prems, of el] group_step_nonempty [of groups el] by simp
qed

lemma foldl_group_step_nonempty: "groups \<noteq> [] \<Longrightarrow> foldl group_step groups els \<noteq> []"
  by (induction els arbitrary: groups) (simp_all add: group_step_nonempty)

lemma getPreviewSections_groups:
  "getPreviewSections m
     = foldl group_step [[]] (filter (\<lambda>n. nodeType n = ELEMENT_NODE) (previewContent m))"
  using foldl_group_step [of "[[]]"] by (simp add: getPreviewSections_def)

lemma getPreviewSections_nonempty: "getPreviewSections m \<noteq> []"
  by (simp add: getPreviewSections_groups foldl_group_step_nonempty)

lemma foldl_spec_groups:
  assumes "\<forall>el\<in>set els. headingTagRx (tagName el) = isHeadingTag (tagName el)"
  shows "foldl group_step groups els = foldl spec_group_step groups els"
  using assms
  by (induction els arbitrary: groups) (simp_all add: group_step_def spec_group_step_def)

lemma getPreviewSections_spec:
  assumes "\<forall>el\<in>set (previewContent m). headingTagRx (tagName el) = isHeadingTag (tagName el)"
  shows "getPreviewSections m
           = spec_groups (filter (\<lambda>n. nodeType n = ELEMENT_NODE) (previewContent m))"
  using foldl_spec_groups [of "filter (\<lambda>n. nodeType n = ELEMENT_NODE) (previewContent m)" "[[]]"]
    assms
  by (simp add: getPreviewSections_groups spec_groups_def)

lemma isHeadingTag_match: "isHeadingTag t \<Longrightarrow> headingTagRx t"
  by (auto simp: isHeadingTag_def str_def)

lemma heading_example:
  "getPreviewSections
     (new_SectionManager c [element ''H1'', element ''P'', element ''P'', element ''H2'', element ''P''])
   = [[element ''H1'', element ''P'', element ''P''], [element ''H2'', element ''P'']]"
  by (simp add: getPreviewSections_groups new_SectionManager_def element_def ELEMENT_NODE_def
        group_step_def str_def)

section \<open>Matching groups with sections\<close>

lemma forEach_frame:
  assumes "sectionList m = Some sl"
  shows "\<exists>m'. matchPreviewSections_forEach wrap groups index m = Inr m'
           \<and> sectionList m' = Some sl \<and> currentSection m' = currentSection m
           \<and> cm m' = cm m \<and> previewContent m' = previewContent m \<and> nextRef m' = nextRef m
           \<and> (\<forall>r. start (heap m' r) = start (heap m r)
                  \<and> end_line (heap m' r) = end_line (heap m r))"
  using assms
proof (induction groups arbitrary: index m)
  case Nil
  then show ?case by simp
next
  case (Cons childs rest)
  let ?m1 = "m\<lparr>heap := (heap m)(sl ! index :=
                    (heap m (sl ! index))\<lparr>previewSectionEl := Some (wrap index childs)\<rparr>)\<rparr>"
  show ?case
  proof (cases "index < length sl")
    case True
    have "sectionList ?m1 = Some sl" using Cons.prems by simp
    from Cons.IH [OF this, of "index + 1"] show ?thesis
      using True Cons.prems by auto
  next
    case False
    from Cons.IH [OF Cons.prems, of "index + 1"] show ?thesis
      using False Cons.prems by auto
  qed
qed

lemma forEach_keeps_assigned:
  assumes "sectionList m = Some sl"
    and "matchPreviewSections_forEach wrap groups index m = Inr m'"
    and "previewSectionEl (heap m r) \<noteq> None"
  shows "previewSectionEl (heap m' r) \<noteq> None"
  using assms
proof (induction groups arbitrary: index m)
  case Nil
  then show ?case by simp
next
  case (Cons childs rest)
  let ?m1 = "m\<lparr>heap := (heap m)(sl ! index :=
                    (heap m (sl ! index))\<lparr>previewSectionEl := Some (wrap index childs)\<rparr>)\<rparr>"
  show ?case
  proof (cases "index < length sl")
    case True
    have "sectionList ?m1 = Some sl" "previewSectionEl (heap ?m1 r) \<noteq> None"
      using Cons.prems by simp_all
    moreover have "matchPreviewSections_forEach wrap rest (index + 1) ?m1 = Inr m'"
      using Cons.prems True by simp
    ultimately show ?thesis using Cons.IH [of ?m1 "index + 1"] by blast
  next
    case False
    then have "matchPreviewSections_forEach wrap rest (index + 1) m = Inr m'"
      using Cons.prems by simp
    then show ?thesis using Cons.IH [of m "index + 1"] Cons.prems by blast
  qed
qed

lemma forEach_untouched:
  assumes "sectionList m = Some sl"
    and "matchPreviewSections_forEach wrap groups index m = Inr m'"
    and "r \<notin> set (drop index sl)"
  shows "heap m' r = heap m r"
  using assms
proof (induction groups arbitrary: index m)
  case Nil
  then show ?case by simp
next
  case (Cons childs rest)
  let ?m1 = "m\<lparr>heap := (heap m)(sl ! index :=
                    (heap m (sl ! index))\<lparr>previewSectionEl := Some (wrap index childs)\<rparr>)\<rparr>"
  have later: "r \<notin> set (drop (index + 1) sl)"
    using Cons.prems(3) set_drop_subset_set_drop [of index "index + 1" sl] by auto
  show ?case
  proof (cases "index < length sl")
    case True
    then have "drop index sl = sl ! index # drop (index + 1) sl"
      by (simp add: Cons_nth_drop_Suc)
    then have ne: "r \<noteq> sl ! index" using Cons.prems(3) by auto
    have "sectionList ?m1 = Some sl" using Cons.prems by simp
    moreover have "matchPreviewSections_forEach wrap rest (index + 1) ?m1 = Inr m'"
      using Cons.prems True by simp
    ultimately have "heap m' r = heap ?m1 r"
      using Cons.IH [of ?m1 "index + 1"] later by blast
    then show ?thesis using ne by simp
  next
    case False
    then have "matchPreviewSections_forEach wrap rest (index + 1) m = Inr m'"
      using Cons.prems by simp
    then show ?thesis using Cons.IH [of m "index + 1"] Cons.prems(1) later by blast
  qed
qed

lemma sectionMatch_frame:
  "\<exists>m'. sectionMatch wrap m = Inr m'
     \<and> sectionList m' = sectionList m \<and> currentSection m' = currentSection m \<and> cm m' = cm m
     \<and> (\<forall>r. start (heap m' r) = start (heap m r) \<and> end_line (heap m' r) = end_line (heap m r))"
proof (cases "sectionList m")
  case None
  then show ?thesis by (simp add: sectionMatch_def)
next
  case (Some sl)
  then show ?thesis
    using forEach_frame [OF Some, of wrap "getPreviewSections m" 0]
    by (auto simp: sectionMatch_def matchPreviewSectionsWithSectionlist_def)
qed

section \<open>The wrapper of the first section\<close>

declare numberToString.simps [simp del]

lemma group_step_first:
  assumes "groups \<noteq> []" "hd groups \<noteq> []"
  shows "hd (group_step groups el) \<noteq> []"
proof (cases groups rule: rev_cases)
  case Nil
  then show ?thesis using assms by simp
next
  case (snoc ys y)
  then show ?thesis
    using assms by (cases ys) (auto simp: group_step_def)
qed

lemma foldl_group_step_first:
  "groups \<noteq> [] \<Longrightarrow> hd groups \<noteq> [] \<Longrightarrow> hd (foldl group_step groups els) \<noteq> []"
proof (induction els arbitrary: groups)
  case Nil
  then show ?case by simp
next
  case (Cons el els)
  then show ?case
    using group_step_first [of groups el] group_step_nonempty [of groups el] by simp
qed

lemma first_group_empty_iff:
  "hd (getPreviewSections m) = []
     \<longleftrightarrow> filter (\<lambda>n. nodeType n = ELEMENT_NODE) (previewContent m) = []"
proof (cases "filter (\<lambda>n. nodeType n = ELEMENT_NODE) (previewContent m)")
  case Nil
  then show ?thesis by (simp add: getPreviewSections_groups)
next
  case (Cons el els)
  have "group_step [[]] el = [[el]]" by (simp add: group_step_def)
  then have "hd (foldl group_step [[]] (el # els)) \<noteq> []"
    using foldl_group_step_first [of "[[el]]" els] by simp
  then show ?thesis using Cons by (simp add: getPreviewSections_groups)
qed

lemma sectionMatch_first_assignment:
  assumes "sectionList m = Some sl" and "sl \<noteq> []"
  shows "\<exists>m'. sectionMatch wrap m = Inr m'
           \<and> previewSectionEl (heap m' (hd sl)) \<noteq> None
           \<and> (distinct sl \<longrightarrow>
                previewSectionEl (heap m' (hd sl)) = Some (wrap 0 (hd (getPreviewSections m))))"
proof -
  obtain childs rest where groups: "getPreviewSections m = childs # rest"
    using getPreviewSections_nonempty [of m] by (cases "getPreviewSections m") auto
  obtain r rs where sl: "sl = r # rs" using assms(2) by (cases sl) auto
  let ?m1 = "m\<lparr>heap := (heap m)(r := (heap m r)\<lparr>previewSectionEl := Some (wrap 0 childs)\<rparr>)\<rparr>"
  have list1: "sectionList ?m1 = Some sl" using assms(1) by simp
  obtain m' where m': "matchPreviewSections_forEach wrap rest 1 ?m1 = Inr m'"
    using forEach_frame [OF list1, of wrap rest 1] by blast
  have run: "sectionMatch wrap m = Inr m'"
    using m' assms(1) groups sl
    by (simp add: sectionMatch_def matchPreviewSectionsWithSectionlist_def)
  have "previewSectionEl (heap ?m1 r) \<noteq> None" by simp
  then have assigned: "previewSectionEl (heap m' r) \<noteq> None"
    using forEach_keeps_assigned [OF list1 m'] by blast
  have first: "previewSectionEl (heap m' r) = Some (wrap 0 childs)" if "distinct sl"
  proof -
    have "r \<notin> set (drop 1 sl)" using that sl by simp
    then have "heap m' r = heap ?m1 r"
      using forEach_untouched [OF list1 m'] by blast
    then show ?thesis by simp
  qed
  show ?thesis
    using groups sl run assigned first by auto
qed

lemma content_id_0: "str ''content-id-'' @ numberToString 0 = str ''content-id-0''"
  by (simp add: numberToString.simps str_def)

lemma title_sub_with_preview_run:
  "makeSectionList (new_SectionManager title_sub_doc p) = Inr (title_sub_with_preview p)"
  by (simp add: title_sub_doc_def title_sub_with_preview_def eval_call loop_step eval_line)
     (simp add: eval_nat_numeral)

lemma matched_empty_preview:
  "assigned (sectionMatch wrapAll_parent (title_sub_with_preview [])) 0 = Some []"
  by (simp add: assigned_def sectionMatch_def matchPreviewSectionsWithSectionlist_def
        getPreviewSections_def title_sub_with_preview_def wrapAll_parent_def)

section \<open>Claims about makeSectionList\<close>

text \<open>
  C1. The claim: for every document with a non-blank line, the first section of the list
  built by \<open>makeSectionList\<close> starts at the first non-blank line, also when that line is
  not a boundary. The callback opens a section only for line 0 or a boundary line, so for
  the document \<open>["", "body"]\<close> the first call made by the loop is
  \<open>_updateCurrentSectionEnd(1)\<close>; on a new SectionManager \<open>_currentSection\<close> is \<open>null\<close>,
  the assignment throws, and the section list is left empty.
\<close>

theorem makeSectionList_blank_then_text_throws:
  "makeSectionList (new_SectionManager (document ['''', ''body''] (\<lambda>i. plain)) [] :: wrapper SectionManager)
     = Inl (TypeError,
            (new_SectionManager (document ['''', ''body''] (\<lambda>i. plain)) [])\<lparr>sectionList := Some []\<rparr>)"
proof -
  let ?c = "document ['''', ''body''] (\<lambda>i. plain)"
  let ?m = "new_SectionManager ?c [] :: wrapper SectionManager"
  have "currentSection ?m = None" and "cm ?m = ?c"
    by (simp_all add: new_SectionManager_def)
  moreover have "lineCount ?c = 2"
    by (simp add: lineCount_def document_def)
  moreover have "firstNonBlank ?c = 1"
    by (simp add: firstNonBlank_def document_def blank_iff str_def isWhiteSpace_def)
  moreover have "\<not> opens ?c 1"
    by (simp add: opens_def isSectionLine_def document_def getLine_def getStateAfter_def
          truthy_def plain_def)
  ultimately show ?thesis
    using makeSectionList_throws [of ?m] by simp
qed

text \<open>
  C2. The claim: for the document \<open>["", "# Title", "body1", "body2", "## Sub", "body3"]\<close>
  with lines 1 and 4 marked as headings, \<open>makeSectionList\<close> produces the three sections
  \<open>{1,1}\<close>, \<open>{2,3}\<close>, \<open>{4,5}\<close>. It does not: \<open>body1\<close> and \<open>body2\<close> are not boundary lines,
  so they extend the section opened by the title instead of forming a section of their
  own. Whatever the earlier state of the SectionManager, the list built is \<open>{1,3}\<close>, \<open>{4,5}\<close>.
\<close>

theorem title_sub_doc_sections:
  "cm m = title_sub_doc \<Longrightarrow> built (makeSectionList m) = Some [(1, 3), (4, 5)]"
  by (rule title_sub_doc_built)

theorem title_sub_doc_sections_witness:
  "cm (new_SectionManager title_sub_doc [] :: wrapper SectionManager) = title_sub_doc
   \<and> built (makeSectionList (new_SectionManager title_sub_doc [] :: wrapper SectionManager))
       = Some [(1, 3), (4, 5)]"
  using title_sub_doc_sections [of "new_SectionManager title_sub_doc [] :: wrapper SectionManager"]
  by (simp add: new_SectionManager_def)

theorem title_sub_doc_three_sections_counterexample:
  "built (makeSectionList (new_SectionManager title_sub_doc [] :: wrapper SectionManager))
     \<noteq> Some [(1, 1), (2, 3), (4, 5)]"
  using title_sub_doc_built [of "new_SectionManager title_sub_doc [] :: wrapper SectionManager"]
  by (simp add: new_SectionManager_def)

text \<open>
  C3. The claim: for every document the built list is ordered, has \<open>start \<le> end\<close>, is
  contiguous, and covers exactly the lines from the first non-blank line to the last line.
  A SectionManager that built its list for the one-line document \<open>["# H"]\<close> keeps that
  section as \<open>_currentSection\<close>. When the document becomes \<open>["", "body", "# H"]\<close> and
  \<open>makeSectionList\<close> runs again, line 1 is the first non-blank line, but the callback
  extends the section of the old list; the new list is \<open>{2,2}\<close> alone and line 1 is in no
  section.
\<close>

theorem rebuild_after_edit_misses_first_line:
  "makeSectionList (new_SectionManager heading_doc []) = Inr heading_built
   \<and> firstNonBlank heading_doc_edited = 1
   \<and> lineCount heading_doc_edited = 3
   \<and> built (makeSectionList (heading_built\<lparr>cm := heading_doc_edited\<rparr>)) = Some [(2, 2)]"
proof -
  let ?m = "heading_built\<lparr>cm := heading_doc_edited\<rparr>"
  have first: "firstNonBlank heading_doc_edited = 1"
    by (simp add: heading_doc_edited_def eval_first)
  have count: "lineCount heading_doc_edited = 3"
    by (simp add: heading_doc_edited_def lineCount_def document_def)
  have opens: "\<not> opens heading_doc_edited 1" "opens heading_doc_edited 2"
    by (simp_all add: heading_doc_edited_def eval_line)
  have "currentSection ?m \<noteq> None" and "cm ?m = heading_doc_edited"
    by (simp_all add: heading_built_def)
  moreover have "[1..<3] = [1, 2::nat]"
    by (simp add: upt_rec)
  ultimately have "built (makeSectionList ?m) = Some [(2, 2)]"
    using built_returns [of ?m] first count opens by (simp add: range_step_def)
  then show ?thesis
    using heading_doc_run first count by simp
qed

text \<open>
  C5. The claim: when line \<open>i + 1\<close> consists of one or more \<open>=\<close> or one or more \<open>-\<close> with
  optional white space around them, line \<open>i\<close> is a boundary and starts a section. The
  regular expression begins with \<open>^ *\<close>: before the run only U+0020 is accepted, so a TAB
  in front of \<open>===\<close> makes the line no underline. With spaces (any number) before the run
  and any white space after it, line \<open>i\<close> is flagged, and every list that \<open>makeSectionList\<close>
  returns has a section starting at \<open>i\<close>; it returns whenever \<open>_currentSection\<close> is not
  \<open>null\<close> or the first non-blank line is line 0 or a boundary.
\<close>

theorem setext_title_opens_section:
  assumes "cm m = c" and "firstNonBlank c \<le> i" and "i + 1 < lineCount c"
    and "lines c ! (i + 1) = replicate p 32 @ replicate (Suc q) u @ w"
    and "u = 61 \<or> u = 45" and "list_all isWhiteSpace w"
  shows "isSectionLine c i
         \<and> (\<forall>m'. makeSectionList m = Inr m' \<longrightarrow> i \<in> set (map fst (ranges m')))
         \<and> (currentSection m \<noteq> None \<or> opens c (firstNonBlank c)
              \<longrightarrow> (\<exists>m'. makeSectionList m = Inr m'))"
proof -
  have "setextHeaderRx (lines c ! (i + 1))"
    using setextHeaderRx_intro [OF assms(5,6), of p q] assms(4) by simp
  then have flag: "isSectionLine c i"
    using isSectionLine_underlined [of i c] assms(3) by simp
  then have "i \<in> set (map fst (ranges m'))" if "makeSectionList m = Inr m'" for m'
    using built_start_iff [OF that, of i] assms(1,2,3) by (simp add: opens_def)
  moreover have "\<exists>m'. makeSectionList m = Inr m'"
    if "currentSection m \<noteq> None \<or> opens c (firstNonBlank c)"
    using makeSectionList_returns [of m] that assms(1) by auto
  ultimately show ?thesis using flag by blast
qed

theorem setext_title_opens_section_witness:
  "firstNonBlank space_underline_doc \<le> 1 \<and> 1 + 1 < lineCount space_underline_doc
   \<and> lines space_underline_doc ! (1 + 1) = replicate 2 32 @ replicate (Suc 2) 61 @ [32]
   \<and> isSectionLine space_underline_doc 1
   \<and> (\<exists>m'. makeSectionList (new_SectionManager space_underline_doc [] :: wrapper SectionManager)
               = Inr m' \<and> 1 \<in> set (map fst (ranges m')))"
proof -
  let ?m = "new_SectionManager space_underline_doc [] :: wrapper SectionManager"
  have line: "lines space_underline_doc ! (1 + 1) = replicate 2 32 @ replicate (Suc 2) 61 @ [32]"
    by (simp add: space_underline_doc_def document_def str_def eval_nat_numeral)
  have white: "list_all isWhiteSpace [32]"
    by (simp add: isWhiteSpace_def)
  have "cm ?m = space_underline_doc" and "opens space_underline_doc 0"
    by (simp_all add: new_SectionManager_def opens_def)
  then show ?thesis
    using setext_title_opens_section [of ?m space_underline_doc 1 2 2 61 "[32]"]
      line white space_underline_doc_facts(1,2)
    by auto
qed

theorem tab_before_underline_counterexample:
  "firstNonBlank tab_underline_doc \<le> 1 \<and> 1 + 1 < lineCount tab_underline_doc
   \<and> spec_setext_underline (lines tab_underline_doc ! (1 + 1))
   \<and> \<not> isSectionLine tab_underline_doc 1
   \<and> built (makeSectionList (new_SectionManager tab_underline_doc [] :: wrapper SectionManager))
       = Some [(0, 2)]"
proof -
  have "spec_setext_underline (lines tab_underline_doc ! (1 + 1))"
    by (simp add: tab_underline_doc_def spec_setext_underline_def trim_def str_def
          isWhiteSpace_def)
  moreover have "\<not> isSectionLine tab_underline_doc 1"
    by (simp add: tab_underline_doc_def eval_line)
  moreover have "firstNonBlank tab_underline_doc = 0" "lineCount tab_underline_doc = 3"
    by (simp_all add: tab_underline_doc_def eval_first lineCount_def)
  ultimately show ?thesis
    using tab_underline_doc_built by simp
qed

text \<open>
  C6. The claim: a heading line inside a blockquote, list or task list does not open a
  section, and one outside them is a boundary and opens one. The test for the next line
  (a setext underline) is tried whenever the first test fails, so a heading in a
  blockquote that is followed by a line of dashes is a boundary all the same; and line 0
  always opens a section. For a line with text, at or after the first non-blank line,
  that is marked as a heading: outside those contexts it is a boundary and every list
  returned has a section starting there; inside one of them it is a boundary exactly when
  the next line is an underline, and a returned list has a section starting there exactly
  when it is line 0 or the next line is an underline.
\<close>

theorem heading_line_sections:
  assumes "cm m = c" and "firstNonBlank c \<le> i" and "i < lineCount c"
    and "lines c ! i \<noteq> []" and "header (base (stateAfter c i))"
  shows "(\<not> quote (base (stateAfter c i)) \<and> \<not> list (base (stateAfter c i))
            \<and> \<not> taskList (base (stateAfter c i)) \<longrightarrow>
          isSectionLine c i
          \<and> (\<forall>m'. makeSectionList m = Inr m' \<longrightarrow> i \<in> set (map fst (ranges m'))))
       \<and> (quote (base (stateAfter c i)) \<or> list (base (stateAfter c i))
            \<or> taskList (base (stateAfter c i)) \<longrightarrow>
          (isSectionLine c i \<longleftrightarrow> i + 1 < lineCount c \<and> setextHeaderRx (lines c ! (i + 1)))
          \<and> (\<forall>m'. makeSectionList m = Inr m' \<longrightarrow>
                (i \<in> set (map fst (ranges m'))
                   \<longleftrightarrow> i = 0 \<or> (i + 1 < lineCount c \<and> setextHeaderRx (lines c ! (i + 1))))))
       \<and> (currentSection m \<noteq> None \<or> opens c (firstNonBlank c)
            \<longrightarrow> (\<exists>m'. makeSectionList m = Inr m'))"
proof -
  have started: "i \<in> set (map fst (ranges m')) \<longleftrightarrow> i = 0 \<or> isSectionLine c i"
    if "makeSectionList m = Inr m'" for m'
    using built_start_iff [OF that, of i] assms(1,2,3) by (simp add: opens_def)
  have outside: "isSectionLine c i"
    if "\<not> quote (base (stateAfter c i))" "\<not> list (base (stateAfter c i))"
      "\<not> taskList (base (stateAfter c i))"
    using isSectionLine_heading [OF assms(3,4,5) that] .
  have inside: "isSectionLine c i \<longleftrightarrow> i + 1 < lineCount c \<and> setextHeaderRx (lines c ! (i + 1))"
    if "quote (base (stateAfter c i)) \<or> list (base (stateAfter c i))
          \<or> taskList (base (stateAfter c i))"
    using isSectionLine_in_context [OF that] .
  have returns: "\<exists>m'. makeSectionList m = Inr m'"
    if "currentSection m \<noteq> None \<or> opens c (firstNonBlank c)"
    using makeSectionList_returns [of m] that assms(1) by auto
  show ?thesis
    using started outside inside returns by blast
qed

theorem heading_line_sections_witness:
  "firstNonBlank open_heading_doc \<le> 1 \<and> 1 < lineCount open_heading_doc
   \<and> lines open_heading_doc ! 1 \<noteq> [] \<and> header (base (stateAfter open_heading_doc 1))
   \<and> isSectionLine open_heading_doc 1
   \<and> (\<exists>m'. makeSectionList (new_SectionManager open_heading_doc [] :: wrapper SectionManager)
               = Inr m' \<and> 1 \<in> set (map fst (ranges m')))
   \<and> firstNonBlank quoted_heading_text_doc \<le> 1 \<and> 1 < lineCount quoted_heading_text_doc
   \<and> lines quoted_heading_text_doc ! 1 \<noteq> []
   \<and> header (base (stateAfter quoted_heading_text_doc 1))
   \<and> quote (base (stateAfter quoted_heading_text_doc 1))
   \<and> \<not> isSectionLine quoted_heading_text_doc 1
   \<and> (\<exists>m'. makeSectionList (new_SectionManager quoted_heading_text_doc [] :: wrapper SectionManager)
               = Inr m' \<and> 1 \<notin> set (map fst (ranges m')))"
proof -
  let ?m = "new_SectionManager open_heading_doc [] :: wrapper SectionManager"
  let ?q = "new_SectionManager quoted_heading_text_doc [] :: wrapper SectionManager"
  have state: "lines open_heading_doc ! 1 \<noteq> []" "header (base (stateAfter open_heading_doc 1))"
      "\<not> quote (base (stateAfter open_heading_doc 1))"
      "\<not> list (base (stateAfter open_heading_doc 1))"
      "\<not> taskList (base (stateAfter open_heading_doc 1))"
    by (simp_all add: open_heading_doc_def document_def atx_def str_def)
  have qstate: "lines quoted_heading_text_doc ! 1 \<noteq> []"
      "header (base (stateAfter quoted_heading_text_doc 1))"
      "quote (base (stateAfter quoted_heading_text_doc 1))"
    by (simp_all add: quoted_heading_text_doc_def document_def quoted_atx_def str_def)
  have next_line: "\<not> setextHeaderRx (lines quoted_heading_text_doc ! (1 + 1))"
    by (simp add: quoted_heading_text_doc_def document_def str_def setextHeaderRx_def)
  have cms: "cm ?m = open_heading_doc" "opens open_heading_doc 0"
      "cm ?q = quoted_heading_text_doc" "opens quoted_heading_text_doc 0"
    by (simp_all add: new_SectionManager_def opens_def)
  have "isSectionLine open_heading_doc 1
      \<and> (\<exists>m'. makeSectionList ?m = Inr m' \<and> 1 \<in> set (map fst (ranges m')))"
    using heading_line_sections [of ?m open_heading_doc 1] state cms(1,2)
      open_heading_doc_facts(1,2)
    by auto
  moreover have "\<not> isSectionLine quoted_heading_text_doc 1
      \<and> (\<exists>m'. makeSectionList ?q = Inr m' \<and> 1 \<notin> set (map fst (ranges m')))"
    using heading_line_sections [of ?q quoted_heading_text_doc 1] qstate cms(3,4) next_line
      quoted_heading_text_doc_facts(1,2)
    by auto
  ultimately show ?thesis
    using state qstate open_heading_doc_facts(1,2) quoted_heading_text_doc_facts(1,2) by simp
qed

theorem quoted_heading_before_dashes_counterexample:
  "firstNonBlank quoted_heading_doc \<le> 1 \<and> 1 < lineCount quoted_heading_doc
   \<and> lines quoted_heading_doc ! 1 \<noteq> []
   \<and> header (base (stateAfter quoted_heading_doc 1))
   \<and> quote (base (stateAfter quoted_heading_doc 1))
   \<and> isSectionLine quoted_heading_doc 1
   \<and> built (makeSectionList (new_SectionManager quoted_heading_doc [] :: wrapper SectionManager))
       = Some [(0, 0), (1, 2)]"
proof -
  let ?m = "new_SectionManager quoted_heading_doc [] :: wrapper SectionManager"
  have "lines quoted_heading_doc ! 1 \<noteq> []" "header (base (stateAfter quoted_heading_doc 1))"
      "quote (base (stateAfter quoted_heading_doc 1))"
    by (simp_all add: quoted_heading_doc_def document_def quoted_atx_def str_def)
  moreover have "isSectionLine quoted_heading_doc 1"
    using quoted_heading_doc_facts(3) by (simp add: opens_def)
  moreover have "cm ?m = quoted_heading_doc"
    by (simp add: new_SectionManager_def)
  ultimately show ?thesis
    using intro_title_built [of ?m quoted_heading_doc] quoted_heading_doc_facts by simp
qed

section \<open>Claims about sectionByLine\<close>

text \<open>
  C4. For a list built by \<open>makeSectionList\<close> that is not empty, whether or not
  \<open>sectionMatch\<close> has run on it since, \<open>sectionByLine(line)\<close>
  returns, without throwing, the first section of the list whose end is not before \<open>line\<close>,
  and the last section when there is none. When \<open>line\<close> lies between the first start and
  the last end, the section returned contains \<open>line\<close> and is the only one that does. For a
  line after the last end, and so for every line from \<open>lineCount\<close> on, it is the last
  section.
\<close>

theorem sectionByLine_of_built_list:
  assumes "makeSectionList m0 = Inr m1" and "m = m1 \<or> sectionMatch wrap m1 = Inr m"
    and "sectionList m = Some sl" and "sl \<noteq> []"
  shows "\<exists>r. sectionByLine m line = Inr (Some r) \<and> r \<in> set sl
           \<and> r = (case find (\<lambda>r. line \<le> end_line (heap m r)) sl of
                    Some r' \<Rightarrow> r' | None \<Rightarrow> last sl)
           \<and> (start (heap m (hd sl)) \<le> line \<and> line \<le> end_line (heap m (last sl)) \<longrightarrow>
                start (heap m r) \<le> line \<and> line \<le> end_line (heap m r)
                \<and> (\<forall>r'\<in>set sl. start (heap m r') \<le> line \<and> line \<le> end_line (heap m r')
                      \<longrightarrow> r' = r))
           \<and> (end_line (heap m (last sl)) < line \<longrightarrow> r = last sl)
           \<and> (lineCount (cm m) \<le> line \<longrightarrow> r = last sl)"
proof -
  let ?P = "\<lambda>r. line \<le> end_line (heap m r)"
  define r where "r = (case find ?P sl of Some r' \<Rightarrow> r' | None \<Rightarrow> last sl)"
  have run: "sectionByLine m line = Inr (Some r)"
    using sectionByLine_find [OF assms(3,4)] by (simp add: r_def)
  have same: "sectionList m = sectionList m1 \<and> cm m = cm m1
      \<and> (\<forall>r. start (heap m r) = start (heap m1 r) \<and> end_line (heap m r) = end_line (heap m1 r))"
    using assms(2) sectionMatch_frame [of wrap m1] by auto
  then have same_ranges: "ranges m = ranges m1"
    by (auto simp: ranges_def split: option.splits)
  have rs: "ranges m = map (\<lambda>r. (start (heap m r), end_line (heap m r))) sl"
    using assms(3) by (simp add: ranges_def)
  then have ne: "ranges m1 \<noteq> []" using assms(4) same_ranges by simp
  have ch: "contiguous (ranges m)" "snd (last (ranges m)) + 1 = lineCount (cm m)"
    using built_chain(1,2) [OF assms(1) ne] same same_ranges by simp_all
  have ordered: "end_line (heap m (sl ! i)) < start (heap m (sl ! j))"
    if "i < j" "j < length sl" for i j
    using contiguous_mono [OF ch(1), of j i] that by (simp add: rs)
  have proper: "start (heap m (sl ! j)) \<le> end_line (heap m (sl ! j))" if "j < length sl" for j
    using contiguous_nth(1) [OF ch(1), of j] that by (simp add: rs)
  have next_start: "end_line (heap m (sl ! i)) + 1 = start (heap m (sl ! Suc i))"
    if "Suc i < length sl" for i
    using contiguous_nth(2) [OF ch(1), of i] that by (simp add: rs)
  have last_end: "end_line (heap m (last sl)) + 1 = lineCount (cm m)"
    using ch(2) assms(4) by (simp add: rs last_map)
  have below_last: "\<And>x. x \<in> set sl \<Longrightarrow> end_line (heap m x) \<le> end_line (heap m (last sl))"
  proof -
    fix x assume "x \<in> set sl"
    then obtain i where i: "i < length sl" "x = sl ! i" by (auto simp: in_set_conv_nth)
    show "end_line (heap m x) \<le> end_line (heap m (last sl))"
    proof (cases "i = length sl - 1")
      case True
      then show ?thesis using i assms(4) by (simp add: last_conv_nth)
    next
      case False
      then have "i < length sl - 1" using i by simp
      then have "end_line (heap m (sl ! i)) < start (heap m (sl ! (length sl - 1)))"
        using ordered [of i "length sl - 1"] i by simp
      moreover have "start (heap m (sl ! (length sl - 1))) \<le> end_line (heap m (sl ! (length sl - 1)))"
        using proper [of "length sl - 1"] i by simp
      ultimately show ?thesis using i assms(4) by (simp add: last_conv_nth)
    qed
  qed
  have mem: "r \<in> set sl"
    using assms(4) by (auto simp: r_def find_Some_iff split: option.splits)
  have past: "r = last sl" if "end_line (heap m (last sl)) < line"
  proof -
    have "find ?P sl = None"
      using below_last that by (fastforce simp: find_None_iff)
    then show ?thesis by (simp add: r_def)
  qed
  have inside: "start (heap m r) \<le> line \<and> line \<le> end_line (heap m r)
      \<and> (\<forall>r'\<in>set sl. start (heap m r') \<le> line \<and> line \<le> end_line (heap m r') \<longrightarrow> r' = r)"
    if lo: "start (heap m (hd sl)) \<le> line" and hi: "line \<le> end_line (heap m (last sl))"
  proof -
    have "find ?P sl \<noteq> None"
      using hi last_in_set [OF assms(4)] by (auto simp: find_None_iff)
    then obtain x where x: "find ?P sl = Some x" by auto
    then obtain i where "i < length sl" "?P (sl ! i)" "x = sl ! i" "\<forall>j<i. \<not> ?P (sl ! j)"
      unfolding find_Some_iff by blast
    then have i: "i < length sl" "?P (sl ! i)" "r = sl ! i" "\<forall>j<i. \<not> ?P (sl ! j)"
      using x by (simp_all add: r_def)
    have low: "start (heap m r) \<le> line"
    proof (cases i)
      case 0
      then show ?thesis using lo i assms(4) by (simp add: hd_conv_nth)
    next
      case (Suc k)
      then have "end_line (heap m (sl ! k)) < line" using i(4) by auto
      then show ?thesis using next_start [of k] i Suc by simp
    qed
    have uniq: "r' = r"
      if r'1: "r' \<in> set sl" and r'2: "start (heap m r') \<le> line"
        and r'3: "line \<le> end_line (heap m r')" for r'
    proof -
      obtain j where j: "j < length sl" "r' = sl ! j"
        using r'1 by (auto simp: in_set_conv_nth)
      have "\<not> j < i" using i(4) j r'3 by auto
      moreover have "\<not> i < j"
      proof
        assume "i < j"
        then have "end_line (heap m (sl ! i)) < start (heap m (sl ! j))"
          using ordered j by simp
        then show False using i(2) r'2 j by simp
      qed
      ultimately show ?thesis using i(3) j by simp
    qed
    show ?thesis using low i uniq by auto
  qed
  have beyond: "r = last sl" if "lineCount (cm m) \<le> line"
    using past last_end that by simp
  have eq: "r = (case find ?P sl of Some r' \<Rightarrow> r' | None \<Rightarrow> last sl)"
    by (simp add: r_def)
  show ?thesis
    using run mem eq past inside beyond by blast
qed

theorem sectionByLine_of_built_list_witness:
  "makeSectionList (new_SectionManager title_sub_doc []) = Inr title_sub_built
   \<and> sectionList title_sub_built = Some [0, 1]
   \<and> sectionByLine title_sub_built 2 = Inr (Some 0)
   \<and> sectionByLine title_sub_built 4 = Inr (Some 1)
   \<and> sectionByLine title_sub_built 9 = Inr (Some 1)"
proof -
  have sl: "sectionList title_sub_built = Some [0, 1]"
    by (simp add: title_sub_built_def)
  have "sectionByLine title_sub_built 2 = Inr (Some 0)"
    using sectionByLine_of_built_list [OF title_sub_doc_run disjI1 [OF refl] sl, of 2]
    by (simp add: title_sub_built_def)
  moreover have "sectionByLine title_sub_built 4 = Inr (Some 1)"
    using sectionByLine_of_built_list [OF title_sub_doc_run disjI1 [OF refl] sl, of 4]
    by (simp add: title_sub_built_def)
  moreover have "sectionByLine title_sub_built 9 = Inr (Some 1)"
    using sectionByLine_of_built_list [OF title_sub_doc_run disjI1 [OF refl] sl, of 9]
    by (simp add: title_sub_built_def)
  ultimately show ?thesis
    using title_sub_doc_run sl by simp
qed

section \<open>Claims about sectionMatch\<close>

text \<open>
  C7. The claim: grouping starts from one empty group; an element whose tag name is one of
  H1 to H6 opens a new group when the current group is not empty; every other element is
  appended to the current group. The test \<open>el.tagName.match(/H1|H2|H3|H4|H5|H6/)\<close> is not
  anchored, so an element such as \<open>H10\<close>, whose tag name is none of the six, opens a new
  group after \<open>P\<close> as a heading would.
\<close>

theorem tag_containing_H1_opens_group:
  "getPreviewSections (new_SectionManager c [element ''P'', element ''H10''])
     = [[element ''P''], [element ''H10'']]
   \<and> \<not> isHeadingTag (tagName (element ''H10''))
   \<and> spec_groups [element ''P'', element ''H10''] = [[element ''P'', element ''H10'']]"
  by (simp add: getPreviewSections_def getPreviewSections_each_def new_SectionManager_def
        element_def ELEMENT_NODE_def str_def isHeadingTag_def spec_groups_def
        spec_group_step_def)

text \<open>
  C8. When the section list was never built (\<open>_sectionList\<close> is \<open>null\<close>), \<open>sectionMatch\<close>
  returns and leaves the SectionManager as it was: no group is computed and no
  \<open>$previewSectionEl\<close> is assigned.
\<close>

theorem sectionMatch_without_list:
  "sectionList m = None \<Longrightarrow> sectionMatch wrap m = Inr m"
  by (simp add: sectionMatch_def)

theorem sectionMatch_without_list_witness:
  "sectionList (new_SectionManager title_sub_doc [element ''H1'', element ''P''] :: wrapper SectionManager)
     = None
   \<and> sectionMatch wrapped (new_SectionManager title_sub_doc [element ''H1'', element ''P''])
       = Inr (new_SectionManager title_sub_doc [element ''H1'', element ''P''])"
  using sectionMatch_without_list
    [of "new_SectionManager title_sub_doc [element ''H1'', element ''P'']" wrapped]
  by (simp add: new_SectionManager_def)

text \<open>
  C9. \<open>sectionMatch\<close> always returns, and it leaves \<open>start\<close> and \<open>end\<close> of every section
  object as they were, as well as the section list and the current section; of a section it
  can only change \<open>$previewSectionEl\<close>.
\<close>

theorem sectionMatch_keeps_ranges:
  "\<exists>m'. sectionMatch wrap m = Inr m'
     \<and> sectionList m' = sectionList m \<and> currentSection m' = currentSection m
     \<and> (\<forall>r. start (heap m' r) = start (heap m r) \<and> end_line (heap m' r) = end_line (heap m r))"
  using sectionMatch_frame [of wrap m] by blast

text \<open>
  C10. The claim: with a section list that is not empty the grouping returns at least one
  group, one empty group when the preview has no element, so that section 0 is always
  assigned a fresh container, possibly an empty one, and is never left unset. The grouping
  does so, and \<open>$previewSectionEl\<close> of section 0 is always assigned. What is assigned is the
  jQuery object of \<open>.parent()\<close>: when the preview has an element it holds the one \<open>div\<close>
  of class \<open>content-id-0\<close> made in this call around the first group, which is not empty;
  when the preview has no element \<open>wrapAll\<close> makes no \<open>div\<close>, and the object assigned holds
  nothing: there is no container, not an empty one.
\<close>

theorem sectionMatch_first_wrapper:
  assumes "sectionList m = Some sl" and "sl \<noteq> []"
  shows "getPreviewSections m \<noteq> []
         \<and> (filter (\<lambda>n. nodeType n = ELEMENT_NODE) (previewContent m) = []
              \<longrightarrow> getPreviewSections m = [[]])
         \<and> (hd (getPreviewSections m) = []
              \<longleftrightarrow> filter (\<lambda>n. nodeType n = ELEMENT_NODE) (previewContent m) = [])
         \<and> (\<exists>m'. sectionMatch wrapAll_parent m = Inr m'
                \<and> previewSectionEl (heap m' (hd sl)) \<noteq> None
                \<and> (distinct sl \<longrightarrow>
                     previewSectionEl (heap m' (hd sl))
                       = Some (if filter (\<lambda>n. nodeType n = ELEMENT_NODE) (previewContent m) = []
                               then []
                               else [\<lparr>className = str ''content-id-0'',
                                      childNodes = hd (getPreviewSections m)\<rparr>])))"
proof -
  let ?els = "filter (\<lambda>n. nodeType n = ELEMENT_NODE) (previewContent m)"
  have empty: "getPreviewSections m = [[]]" if "?els = []"
    using that by (simp add: getPreviewSections_groups)
  have made: "wrapAll_parent 0 (hd (getPreviewSections m))
      = (if ?els = [] then []
         else [\<lparr>className = str ''content-id-0'', childNodes = hd (getPreviewSections m)\<rparr>])"
    using first_group_empty_iff [of m] by (simp add: wrapAll_parent_def content_id_0)
  obtain m' where m': "sectionMatch wrapAll_parent m = Inr m'"
      "previewSectionEl (heap m' (hd sl)) \<noteq> None"
      "distinct sl \<longrightarrow> previewSectionEl (heap m' (hd sl))
                         = Some (wrapAll_parent 0 (hd (getPreviewSections m)))"
    using sectionMatch_first_assignment [OF assms, of wrapAll_parent] by blast
  show ?thesis
    using getPreviewSections_nonempty [of m] empty m' made first_group_empty_iff [of m]
    by auto
qed

theorem sectionMatch_first_wrapper_witness:
  "makeSectionList (new_SectionManager title_sub_doc [element ''H1'', element ''P''])
     = Inr (title_sub_with_preview [element ''H1'', element ''P''])
   \<and> sectionList (title_sub_with_preview [element ''H1'', element ''P'']) = Some [0, 1]
   \<and> getPreviewSections (title_sub_with_preview [element ''H1'', element ''P''])
       = [[element ''H1'', element ''P'']]
   \<and> assigned (sectionMatch wrapAll_parent (title_sub_with_preview [element ''H1'', element ''P''])) 0
       = Some [\<lparr>className = str ''content-id-0'',
                childNodes = [element ''H1'', element ''P'']\<rparr>]"
proof -
  let ?m = "title_sub_with_preview [element ''H1'', element ''P'']"
  have sl: "sectionList ?m = Some [0, 1]"
    by (simp add: title_sub_with_preview_def)
  have groups: "getPreviewSections ?m = [[element ''H1'', element ''P'']]"
    by (simp add: getPreviewSections_groups title_sub_with_preview_def element_def
          ELEMENT_NODE_def group_step_def str_def)
  have els: "filter (\<lambda>n. nodeType n = ELEMENT_NODE) (previewContent ?m) \<noteq> []"
    by (simp add: title_sub_with_preview_def element_def)
  have "assigned (sectionMatch wrapAll_parent ?m) 0
      = Some [\<lparr>className = str ''content-id-0'', childNodes = [element ''H1'', element ''P'']\<rparr>]"
    using sectionMatch_first_wrapper [OF sl] groups els by (auto simp: assigned_def)
  then show ?thesis
    using title_sub_with_preview_run sl groups by simp
qed

theorem empty_preview_no_container_counterexample:
  "makeSectionList (new_SectionManager title_sub_doc []) = Inr (title_sub_with_preview [])
   \<and> sectionList (title_sub_with_preview []) = Some [0, 1]
   \<and> getPreviewSections (title_sub_with_preview []) = [[]]
   \<and> assigned (sectionMatch wrapAll_parent (title_sub_with_preview [])) 0 = Some []"
  using title_sub_with_preview_run [of "[]"] matched_empty_preview
  by (simp add: title_sub_with_preview_def getPreviewSections_def)

end
